theory Spec2Isabelle
  imports Main
begin

section \<open>Python values and exceptions\<close>

text \<open>
  The module \<^verbatim>\<open>crypto_routines__2010.py\<close> is Python 2 code run inside Sage. An exception
  that leaves a call is the \<open>Inl\<close> branch of the result. The exception classes are the
  ones the interpreter would raise; where one class is raised at two places with two
  messages, the constructor carries which message it is.

  The specification's names for them:
  \<^item> \<open>NotImplemented\<close> is \<open>NotImplementedError\<close>;
  \<^item> \<open>UnknownSymbol\<close> is the \<open>ValueError\<close> of \<^verbatim>\<open>str.index\<close>;
  \<^item> \<open>IndexOutOfRange\<close> is \<open>IndexError\<close>;
  \<^item> \<open>NoModulus\<close> is \<open>TypeError NoModulusSpecified\<close>;
  \<^item> \<open>NotInvertible\<close> is \<open>RuntimeError CannotFindInverse\<close>;
  \<^item> \<open>PaddingRequired\<close> is \<open>RuntimeError PaddingNeeded\<close>.
\<close>

datatype type_error_msg =
    NoModulusSpecified  \<comment> \<open>"The matrix is not defined over a finite ring, but no modulus is specified."\<close>
  | NoBaseExtension     \<comment> \<open>Sage: "no base extension defined"\<close>

datatype runtime_error_msg =
    CannotFindInverse   \<comment> \<open>"Cannot find the inverse of the matrix "\<close>
  | PaddingNeeded       \<comment> \<open>"Additional padding is needed for the word: ..."\<close>

datatype py_error =
    NotImplementedError
  | ValueError
  | IndexError
  | TypeError type_error_msg
  | RuntimeError runtime_error_msg
  | UnboundLocalError

text \<open>
  A \<^verbatim>\<open>for\<close> loop over a list of indices that updates one accumulator and may raise:
  the first exception ends the loop.
\<close>

fun for_loop :: "('i \<Rightarrow> 's \<Rightarrow> py_error + 's) \<Rightarrow> 'i list \<Rightarrow> 's \<Rightarrow> py_error + 's" where
  "for_loop body [] s = Inr s"
| "for_loop body (i # is) s =
     (case body i s of Inl e \<Rightarrow> Inl e | Inr s' \<Rightarrow> for_loop body is s')"

text \<open>\<^verbatim>\<open>range(n)\<close> and \<^verbatim>\<open>range(0, stop, step)\<close>; a step of zero raises \<open>ValueError\<close>.\<close>

definition py_range :: "nat \<Rightarrow> nat list" where
  "py_range n = [0..<n]"

definition py_range_step :: "nat \<Rightarrow> nat \<Rightarrow> py_error + nat list" where
  "py_range_step stop step =
     (if step = 0 then Inl ValueError
      else Inr (map (\<lambda>k. k * step) [0..<(stop + step - 1) div step]))"

text \<open>\<^verbatim>\<open>s.index(c)\<close> for a one-character \<open>c\<close>: the lowest position of \<open>c\<close>, or \<open>ValueError\<close>.\<close>

fun str_index :: "string \<Rightarrow> char \<Rightarrow> py_error + int" where
  "str_index [] c = Inl ValueError"
| "str_index (x # xs) c =
     (if x = c then Inr 0
      else (case str_index xs c of Inl e \<Rightarrow> Inl e | Inr k \<Rightarrow> Inr (k + 1)))"

text \<open>
  \<^verbatim>\<open>s[i]\<close>: an index from \<open>- len(s)\<close> to \<open>-1\<close> counts from the end; anything outside
  \<open>[- len(s), len(s))\<close> raises \<open>IndexError\<close>.
\<close>

definition str_getitem :: "string \<Rightarrow> int \<Rightarrow> py_error + char" where
  "str_getitem s i =
     (let n = int (length s); j = (if i < 0 then n + i else i)
      in if 0 \<le> j \<and> j < n then Inr (s ! nat j) else Inl IndexError)"


section \<open>CodeForAlphabet\<close>

record CodeForAlphabet =
  codeword_length :: int
  alphabet_string :: string

text \<open>\<^verbatim>\<open>__init__\<close> stores its two arguments and checks nothing.\<close>

definition CodeForAlphabet_init :: "string \<Rightarrow> int \<Rightarrow> py_error + CodeForAlphabet" where
  "CodeForAlphabet_init alphabet_str word_length =
     Inr \<lparr>codeword_length = word_length, alphabet_string = alphabet_str\<rparr>"

definition encode_body :: "CodeForAlphabet \<Rightarrow> string \<Rightarrow> nat \<Rightarrow> int list \<Rightarrow> py_error + int list" where
  "encode_body C text_str i num_list =
     (case str_index (alphabet_string C) (text_str ! i) of
        Inl e \<Rightarrow> Inl e
      | Inr k \<Rightarrow> Inr (num_list @ [k]))"

definition encode :: "CodeForAlphabet \<Rightarrow> string \<Rightarrow> py_error + int list" where
  "encode C text_str =
     (if codeword_length C \<noteq> 1 then Inl NotImplementedError
      else for_loop (encode_body C text_str) (py_range (length text_str)) [])"

definition decode_body :: "CodeForAlphabet \<Rightarrow> int list \<Rightarrow> nat \<Rightarrow> string \<Rightarrow> py_error + string" where
  "decode_body C num_list i new_string =
     (case str_getitem (alphabet_string C) (num_list ! i) of
        Inl e \<Rightarrow> Inl e
      | Inr c \<Rightarrow> Inr (new_string @ [c]))"

definition decode :: "CodeForAlphabet \<Rightarrow> int list \<Rightarrow> py_error + string" where
  "decode C num_list =
     (if codeword_length C \<noteq> 1 then Inl NotImplementedError
      else for_loop (decode_body C num_list) (py_range (length num_list)) [])"

text \<open>The expression \<^verbatim>\<open>C.decode(C.encode(text_str))\<close>: an exception of the inner call leaves it.\<close>

definition decode_of_encode :: "CodeForAlphabet \<Rightarrow> string \<Rightarrow> py_error + string" where
  "decode_of_encode C text_str =
     (case encode C text_str of Inl e \<Rightarrow> Inl e | Inr num_list \<Rightarrow> decode C num_list)"


section \<open>The Sage operations that HillCipher calls\<close>

text \<open>
  Sage is a library, not part of the module. The definitions of this section model the
  calls the module makes, on the two kinds of matrix its docstrings name: a matrix over
  \<open>ZZ\<close> and a matrix over \<open>Z/NZ\<close>. A matrix is the list of its rows; an element of
  \<open>Z/NZ\<close> is read through its representative in \<open>[0, N)\<close>, which is what \<^verbatim>\<open>lift()\<close>
  returns. The module's documented domain is a modulus of at least 2.
\<close>

type_synonym matrix = "int list list"

datatype ring = ZZ | IntegerModRing nat

record sage_matrix =
  base_ring :: ring
  entries :: matrix

fun characteristic :: "ring \<Rightarrow> nat" where
  "characteristic ZZ = 0"
| "characteristic (IntegerModRing N) = N"

definition reduce :: "nat \<Rightarrow> matrix \<Rightarrow> matrix" where
  "reduce N A = map (map (\<lambda>x. x mod int N)) A"

text \<open>
  \<^verbatim>\<open>M.base_extend(IntegerModRing(N))\<close>: defined when the base ring of \<open>M\<close> maps
  canonically to \<open>Z/NZ\<close>, that is from \<open>ZZ\<close> and from \<open>Z/MZ\<close> with \<open>N\<close> dividing
  \<open>M\<close>; a \<open>TypeError\<close> otherwise.
\<close>

definition base_extend :: "sage_matrix \<Rightarrow> nat \<Rightarrow> py_error + matrix" where
  "base_extend M N =
     (case base_ring M of
        ZZ \<Rightarrow> Inr (reduce N (entries M))
      | IntegerModRing M' \<Rightarrow>
          if N dvd M' then Inr (reduce N (entries M))
          else Inl (TypeError NoBaseExtension))"

definition is_square :: "matrix \<Rightarrow> bool" where
  "is_square A = list_all (\<lambda>r. length r = length A) A"

definition dot :: "int list \<Rightarrow> int list \<Rightarrow> int" where
  "dot u v = sum_list (map2 (*) u v)"

definition col :: "matrix \<Rightarrow> nat \<Rightarrow> int list" where
  "col B j = map (\<lambda>r. r ! j) B"

text \<open>The product of two \<open>n \<times> n\<close> matrices over \<open>Z/NZ\<close>, and the identity matrix.\<close>

definition mat_mul_mod :: "nat \<Rightarrow> matrix \<Rightarrow> matrix \<Rightarrow> matrix" where
  "mat_mul_mod N A B =
     map (\<lambda>r. map (\<lambda>j. dot r (col B j) mod int N) [0..<length B]) A"

definition identity_matrix :: "nat \<Rightarrow> matrix" where
  "identity_matrix n = map (\<lambda>i. map (\<lambda>j. if i = j then 1 else 0) [0..<n]) [0..<n]"

text \<open>
  \<^verbatim>\<open>A * vector(w)\<close> followed by \<^verbatim>\<open>c.lift()\<close> on every entry: the product of a matrix
  over \<open>Z/NZ\<close> with a vector of integers, as the list of its representatives in
  \<open>[0, N)\<close>.
\<close>

definition mat_vec_mod :: "nat \<Rightarrow> matrix \<Rightarrow> int list \<Rightarrow> int list" where
  "mat_vec_mod N A v = map (\<lambda>r. dot r v mod int N) A"

text \<open>
  \<^verbatim>\<open>M.inverse()\<close> over \<open>Z/NZ\<close> returns the two-sided inverse of a square matrix and
  raises (\<open>ArithmeticError\<close> when \<open>M\<close> is not square, \<open>ZeroDivisionError\<close> when it has no
  inverse). The inverse is unique (\<open>inverse_unique\<close> below), so it is the one a search
  through all \<open>n \<times> n\<close> matrices with entries in \<open>[0, N)\<close> finds. The only caller
  catches every exception, so \<open>None\<close> stands for both.
\<close>

definition all_matrices :: "nat \<Rightarrow> nat \<Rightarrow> matrix list" where
  "all_matrices N n = List.n_lists n (List.n_lists n (map int [0..<N]))"

definition is_inverse_mod :: "nat \<Rightarrow> matrix \<Rightarrow> matrix \<Rightarrow> bool" where
  "is_inverse_mod N A B \<longleftrightarrow>
     mat_mul_mod N A B = identity_matrix (length A) \<and>
     mat_mul_mod N B A = identity_matrix (length A)"

definition matrix_inverse :: "nat \<Rightarrow> matrix \<Rightarrow> matrix option" where
  "matrix_inverse N A =
     (if is_square A then find (is_inverse_mod N A) (all_matrices N (length A))
      else None)"


section \<open>HillCipher\<close>

record HillCipher =
  encryption_matrix :: matrix
  decryption_matrix :: matrix
  modulus_attr :: nat

text \<open>
  \<^verbatim>\<open>__init__(self, arg1, arg2=None, pass_decryption_key=False)\<close>.

  The handler of the \<^verbatim>\<open>try\<close> around \<^verbatim>\<open>mod_matrix.inverse()\<close> is
  \<^verbatim>\<open>raise RuntimeError, "Cannot find the inverse of the matrix ", mod_matrix_inv\<close>.
  It runs only when the assignment to \<^verbatim>\<open>mod_matrix_inv\<close> did not happen, and Python
  evaluates the three expressions of a \<^verbatim>\<open>raise\<close> before it raises: reading the
  unassigned local raises \<open>UnboundLocalError\<close>, and that is the exception which leaves
  the constructor.

  With \<^verbatim>\<open>arg2 == None\<close> the source takes \<^verbatim>\<open>mod_matrix = arg1\<close>, a matrix over
  \<open>Z/NZ\<close>; \<open>choose_modulus\<close> reads its entries through their representatives in
  \<open>[0, N)\<close>.
\<close>

definition choose_modulus :: "sage_matrix \<Rightarrow> nat option \<Rightarrow> py_error + nat \<times> matrix" where
  "choose_modulus arg1 arg2 =
     (case arg2 of
        None \<Rightarrow>
          (let N = characteristic (base_ring arg1)
           in if N = 0 then Inl (TypeError NoModulusSpecified)
              else Inr (N, reduce N (entries arg1)))
      | Some N \<Rightarrow>
          (case base_extend arg1 N of
             Inl e \<Rightarrow> Inl e
           | Inr mod_matrix \<Rightarrow> Inr (N, mod_matrix)))"

definition HillCipher_init :: "sage_matrix \<Rightarrow> nat option \<Rightarrow> bool \<Rightarrow> py_error + HillCipher" where
  "HillCipher_init arg1 arg2 pass_decryption_key =
     (case choose_modulus arg1 arg2 of
        Inl e \<Rightarrow> Inl e
      | Inr (N, mod_matrix) \<Rightarrow>
          (case matrix_inverse N mod_matrix of
             None \<Rightarrow> Inl UnboundLocalError
           | Some mod_matrix_inv \<Rightarrow>
               if pass_decryption_key = False
               then Inr \<lparr>encryption_matrix = mod_matrix,
                         decryption_matrix = mod_matrix_inv,
                         modulus_attr = N\<rparr>
               else Inr \<lparr>encryption_matrix = mod_matrix_inv,
                         decryption_matrix = mod_matrix,
                         modulus_attr = N\<rparr>))"

text \<open>
  The accessors, by value; the objects that \<^verbatim>\<open>encryption_key\<close> and \<^verbatim>\<open>decryption_key\<close>
  return are \<open>encryption_key_obj\<close> and \<open>decryption_key_obj\<close> below.
\<close>

definition modulus :: "HillCipher \<Rightarrow> nat" where
  "modulus H = modulus_attr H"

definition block_size :: "HillCipher \<Rightarrow> nat" where
  "block_size H = length (encryption_matrix H)"

definition encryption_key :: "HillCipher \<Rightarrow> matrix" where
  "encryption_key H = encryption_matrix H"

definition decryption_key :: "HillCipher \<Rightarrow> matrix" where
  "decryption_key H = decryption_matrix H"

text \<open>
  \<^verbatim>\<open>__apply_Hill_matrix__(self, key_matrix, plaintext_num_list, padding_char="")\<close>.
  Only the length of \<^verbatim>\<open>padding_char\<close> and, in the padding branch, its repetitions are
  used; the model takes it as a list of integers, the default \<^verbatim>\<open>""\<close> being the empty
  one. \<open>hill_body\<close> is the body of the loop over \<^verbatim>\<open>word_index\<close>; the slice
  \<^verbatim>\<open>plaintext_num_list[word_index: word_index + n]\<close> is \<open>take n (drop word_index _)\<close>.
\<close>

definition hill_body ::
  "nat \<Rightarrow> nat \<Rightarrow> matrix \<Rightarrow> int list \<Rightarrow> int list \<Rightarrow> nat \<Rightarrow> int list \<Rightarrow> py_error + int list" where
  "hill_body N n A plaintext_num_list padding_char word_index CT_num_list =
     (let PT_word = take n (drop word_index plaintext_num_list)
      in if length PT_word \<noteq> n
         then (if length padding_char \<noteq> 1 then Inl (RuntimeError PaddingNeeded)
               else Inr (CT_num_list @
                         mat_vec_mod N A
                           (PT_word @ concat (replicate (n - length PT_word) padding_char))))
         else Inr (CT_num_list @ mat_vec_mod N A PT_word))"

definition apply_Hill_matrix ::
  "HillCipher \<Rightarrow> matrix \<Rightarrow> int list \<Rightarrow> int list \<Rightarrow> py_error + int list" where
  "apply_Hill_matrix H key_matrix plaintext_num_list padding_char =
     (let n = block_size H; N = modulus_attr H; A = reduce N key_matrix
      in case py_range_step (length plaintext_num_list) n of
           Inl e \<Rightarrow> Inl e
         | Inr word_indices \<Rightarrow>
             for_loop (hill_body N n A plaintext_num_list padding_char) word_indices [])"

text \<open>
  \<^verbatim>\<open>encrypt\<close> and \<^verbatim>\<open>decrypt\<close> take a \<^verbatim>\<open>padding_char\<close> and pass the literal
  \<^verbatim>\<open>padding_char=""\<close> on, whatever the caller gave.
\<close>

definition encrypt :: "HillCipher \<Rightarrow> int list \<Rightarrow> int list \<Rightarrow> py_error + int list" where
  "encrypt H plaintext_num_list padding_char =
     apply_Hill_matrix H (encryption_matrix H) plaintext_num_list []"

definition decrypt :: "HillCipher \<Rightarrow> int list \<Rightarrow> int list \<Rightarrow> py_error + int list" where
  "decrypt H ciphertext_num_list padding_char =
     apply_Hill_matrix H (decryption_matrix H) ciphertext_num_list []"

text \<open>The expression \<^verbatim>\<open>H.decrypt(H.encrypt(plaintext_num_list))\<close>.\<close>

definition decrypt_of_encrypt :: "HillCipher \<Rightarrow> int list \<Rightarrow> py_error + int list" where
  "decrypt_of_encrypt H plaintext_num_list =
     (case encrypt H plaintext_num_list [] of
        Inl e \<Rightarrow> Inl e
      | Inr ciphertext_num_list \<Rightarrow> decrypt H ciphertext_num_list [])"

text \<open>
  What the constructor establishes: both keys are square matrices of the block size with
  entries in \<open>[0, N)\<close>, each the inverse of the other modulo \<open>N\<close>.
\<close>

definition engine_ok :: "HillCipher \<Rightarrow> bool" where
  "engine_ok H \<longleftrightarrow>
     is_square (encryption_matrix H) \<and> is_square (decryption_matrix H) \<and>
     length (decryption_matrix H) = length (encryption_matrix H) \<and>
     reduce (modulus_attr H) (encryption_matrix H) = encryption_matrix H \<and>
     reduce (modulus_attr H) (decryption_matrix H) = decryption_matrix H \<and>
     mat_mul_mod (modulus_attr H) (encryption_matrix H) (decryption_matrix H)
       = identity_matrix (length (encryption_matrix H)) \<and>
     mat_mul_mod (modulus_attr H) (decryption_matrix H) (encryption_matrix H)
       = identity_matrix (length (encryption_matrix H)) \<and>
     (0 < length (encryption_matrix H) \<longrightarrow> 0 < modulus_attr H)"


section \<open>HillCipher and the identity of its matrices\<close>

text \<open>
  Sage matrices are mutable objects, and the constructor binds names to objects without
  copying: with \<^verbatim>\<open>arg2 == None\<close> the statement \<^verbatim>\<open>mod_matrix = arg1\<close> makes the stored
  key the very object the caller passed in. The accessors \<^verbatim>\<open>encryption_key\<close> and
  \<^verbatim>\<open>decryption_key\<close> return a \<^verbatim>\<open>deepcopy\<close>. To follow who can write into which
  matrix, this section keeps the matrices in a store: an address is a position in the
  list of all matrix objects, and an attribute of the engine holds an address.
  No method other than \<^verbatim>\<open>__init__\<close> assigns an attribute.
\<close>

type_synonym addr = nat

type_synonym store = "sage_matrix list"

text \<open>
  A program only holds addresses of objects that exist; at any other address \<open>deref\<close>
  gives an empty matrix.
\<close>

definition deref :: "store \<Rightarrow> addr \<Rightarrow> sage_matrix" where
  "deref s a = (if a < length s then s ! a else \<lparr>base_ring = ZZ, entries = []\<rparr>)"

definition alloc :: "store \<Rightarrow> sage_matrix \<Rightarrow> addr \<times> store" where
  "alloc s M = (length s, s @ [M])"

definition deepcopy :: "store \<Rightarrow> addr \<Rightarrow> addr \<times> store" where
  "deepcopy s a = alloc s (deref s a)"

record HillCipher_obj =
  encryption_matrix_ref :: addr
  decryption_matrix_ref :: addr
  modulus_value :: nat

text \<open>
  \<^verbatim>\<open>__init__\<close> on objects. The modulus and the entries of \<^verbatim>\<open>mod_matrix\<close> are those of
  \<open>choose_modulus\<close>, the inverse is that of \<open>matrix_inverse\<close>, as in \<open>HillCipher_init\<close>.
  \<^verbatim>\<open>mod_matrix\<close> is the object \<^verbatim>\<open>arg1\<close> itself when no modulus is given, and also when
  \<^verbatim>\<open>base_extend\<close> is asked for the ring the matrix already has (Sage then returns the
  matrix it was given); otherwise \<^verbatim>\<open>base_extend\<close> builds a new matrix.
  \<^verbatim>\<open>inverse()\<close> builds a new matrix.
\<close>

definition HillCipher_new ::
  "store \<Rightarrow> addr \<Rightarrow> nat option \<Rightarrow> bool \<Rightarrow> py_error + HillCipher_obj \<times> store" where
  "HillCipher_new s arg1 arg2 pass_decryption_key =
     (case choose_modulus (deref s arg1) arg2 of
        Inl e \<Rightarrow> Inl e
      | Inr (N, mod_entries) \<Rightarrow>
          (let (mod_matrix, s1) =
                 (if arg2 = None \<or> base_ring (deref s arg1) = IntegerModRing N
                  then (arg1, s)
                  else alloc s \<lparr>base_ring = IntegerModRing N, entries = mod_entries\<rparr>)
           in case matrix_inverse N mod_entries of
                None \<Rightarrow> Inl UnboundLocalError
              | Some inv_entries \<Rightarrow>
                  (let (mod_matrix_inv, s2) =
                         alloc s1 \<lparr>base_ring = IntegerModRing N, entries = inv_entries\<rparr>
                   in if pass_decryption_key = False
                      then Inr (\<lparr>encryption_matrix_ref = mod_matrix,
                                 decryption_matrix_ref = mod_matrix_inv,
                                 modulus_value = N\<rparr>, s2)
                      else Inr (\<lparr>encryption_matrix_ref = mod_matrix_inv,
                                 decryption_matrix_ref = mod_matrix,
                                 modulus_value = N\<rparr>, s2))))"

text \<open>The accessors return the address of a fresh copy.\<close>

definition encryption_key_obj :: "store \<Rightarrow> HillCipher_obj \<Rightarrow> addr \<times> store" where
  "encryption_key_obj s H = deepcopy s (encryption_matrix_ref H)"

definition decryption_key_obj :: "store \<Rightarrow> HillCipher_obj \<Rightarrow> addr \<times> store" where
  "decryption_key_obj s H = deepcopy s (decryption_matrix_ref H)"

text \<open>
  The product \<^verbatim>\<open>A * B\<close> of two matrix objects over the ring of \<open>A\<close>, by value (over
  \<open>ZZ\<close> the characteristic is 0 and \<open>x mod 0 = x\<close>), and the expression
  \<^verbatim>\<open>H.encryption_key() * H.decryption_key()\<close>.
\<close>

definition matrix_mul :: "store \<Rightarrow> addr \<Rightarrow> addr \<Rightarrow> matrix" where
  "matrix_mul s a b =
     (let N = characteristic (base_ring (deref s a))
      in mat_mul_mod N (reduce N (entries (deref s a))) (reduce N (entries (deref s b))))"

definition key_product :: "store \<Rightarrow> HillCipher_obj \<Rightarrow> matrix" where
  "key_product s H =
     (let (E, s1) = encryption_key_obj s H;
          (D, s2) = decryption_key_obj s1 H
      in matrix_mul s2 E D)"

text \<open>
  The assignment \<^verbatim>\<open>A[i, j] = v\<close> of a caller to a matrix object it holds: the value is
  taken into the ring of the matrix; an index outside the matrix raises \<open>IndexError\<close>.
\<close>

fun ring_element :: "ring \<Rightarrow> int \<Rightarrow> int" where
  "ring_element ZZ v = v"
| "ring_element (IntegerModRing N) v = v mod int N"

definition matrix_setitem :: "store \<Rightarrow> addr \<Rightarrow> nat \<Rightarrow> nat \<Rightarrow> int \<Rightarrow> py_error + store" where
  "matrix_setitem s a i j v =
     (let M = deref s a; rows = entries M
      in if i < length rows \<and> j < length (rows ! i)
         then Inr (s[a := M\<lparr>entries := rows[i := (rows ! i)[j := ring_element (base_ring M) v]]\<rparr>])
         else Inl IndexError)"


section \<open>Loops and the alphabet coder\<close>

lemma for_loop_char:
  assumes "\<And>i s. i \<in> set is \<Longrightarrow> body i s = (if ok i then Inr (s @ g i) else Inl e)"
  shows "for_loop body is s = (if (\<forall>i\<in>set is. ok i) then Inr (s @ concat (map g is)) else Inl e)"
  using assms
proof (induction "is" arbitrary: s)
  case Nil
  then show ?case by simp
next
  case (Cons i "is")
  have step: "body i s = (if ok i then Inr (s @ g i) else Inl e)"
    using Cons.prems by simp
  have rest: "\<And>s'. for_loop body is s' = (if (\<forall>i\<in>set is. ok i) then Inr (s' @ concat (map g is)) else Inl e)"
    using Cons.IH Cons.prems by simp
  show ?case
    by (simp add: step rest)
qed

lemma concat_singletons: "concat (map (\<lambda>i. [h i]) is) = map h is"
  by (induction "is") simp_all

lemma map_nth_fun: "map (\<lambda>i. f (xs ! i)) [0..<length xs] = map f xs"
  by (rule nth_equalityI) simp_all

lemma ball_py_range_nth:
  "(\<forall>i\<in>set (py_range (length xs)). P (xs ! i)) \<longleftrightarrow> (\<forall>x\<in>set xs. P x)"
proof
  assume l: "\<forall>i\<in>set (py_range (length xs)). P (xs ! i)"
  show "\<forall>x\<in>set xs. P x"
  proof
    fix x assume "x \<in> set xs"
    then obtain i where "i < length xs" "xs ! i = x"
      by (auto simp: in_set_conv_nth)
    with l show "P x"
      by (auto simp: py_range_def)
  qed
next
  assume r: "\<forall>x\<in>set xs. P x"
  show "\<forall>i\<in>set (py_range (length xs)). P (xs ! i)"
    using r by (simp add: py_range_def)
qed

lemma str_index_mem:
  "c \<in> set a \<Longrightarrow> \<exists>k. str_index a c = Inr (int k) \<and> k < length a \<and> a ! k = c"
proof (induction a)
  case Nil
  then show ?case by simp
next
  case (Cons x a)
  show ?case
  proof (cases "x = c")
    case True
    then have "str_index (x # a) c = Inr (int 0) \<and> 0 < length (x # a) \<and> (x # a) ! 0 = c"
      by simp
    then show ?thesis by blast
  next
    case False
    with Cons obtain k where "str_index a c = Inr (int k)" "k < length a" "a ! k = c"
      by auto
    with False have "str_index (x # a) c = Inr (int (Suc k)) \<and> Suc k < length (x # a) \<and> (x # a) ! Suc k = c"
      by simp
    then show ?thesis by blast
  qed
qed

lemma str_getitem_cases:
  "str_getitem s i =
     (if - int (length s) \<le> i \<and> i < int (length s)
      then Inr (s ! nat (if i < 0 then int (length s) + i else i))
      else Inl IndexError)"
  by (auto simp: str_getitem_def Let_def)

lemma encode_ok:
  assumes "codeword_length C = 1" "set text_str \<subseteq> set (alphabet_string C)"
  shows "encode C text_str = Inr (map (\<lambda>c. projr (str_index (alphabet_string C) c)) text_str)"
proof -
  let ?k = "\<lambda>c. projr (str_index (alphabet_string C) c)"
  have body: "encode_body C text_str i s = (if True then Inr (s @ [?k (text_str ! i)]) else Inl ValueError)"
    if "i \<in> set (py_range (length text_str))" for i s
  proof -
    from that have "text_str ! i \<in> set (alphabet_string C)"
      using assms(2) by (auto simp: py_range_def)
    then obtain k where "str_index (alphabet_string C) (text_str ! i) = Inr (int k)"
      using str_index_mem by blast
    then show ?thesis
      by (simp add: encode_body_def)
  qed
  have "for_loop (encode_body C text_str) (py_range (length text_str)) [] =
      (if (\<forall>i\<in>set (py_range (length text_str)). True)
       then Inr ([] @ concat (map (\<lambda>i. [?k (text_str ! i)]) (py_range (length text_str))))
       else Inl ValueError)"
    by (rule for_loop_char) (rule body)
  then show ?thesis
    using assms(1)
    by (simp add: encode_def concat_singletons py_range_def map_nth_fun [of ?k text_str])
qed

lemma decode_char:
  assumes "codeword_length C = 1"
  shows "decode C num_list =
     (if \<forall>x\<in>set num_list. - int (length (alphabet_string C)) \<le> x \<and> x < int (length (alphabet_string C))
      then Inr (map (\<lambda>x. alphabet_string C ! nat (if x < 0 then int (length (alphabet_string C)) + x else x)) num_list)
      else Inl IndexError)"
proof -
  let ?a = "alphabet_string C"
  let ?ok = "\<lambda>x. - int (length ?a) \<le> x \<and> x < int (length ?a)"
  let ?ch = "\<lambda>x. ?a ! nat (if x < 0 then int (length ?a) + x else x)"
  have body: "decode_body C num_list i s =
        (if ?ok (num_list ! i) then Inr (s @ [?ch (num_list ! i)]) else Inl IndexError)"
    if "i \<in> set (py_range (length num_list))" for i s
    by (simp add: decode_body_def str_getitem_cases)
  have "for_loop (decode_body C num_list) (py_range (length num_list)) [] =
      (if (\<forall>i\<in>set (py_range (length num_list)). ?ok (num_list ! i))
       then Inr ([] @ concat (map (\<lambda>i. [?ch (num_list ! i)]) (py_range (length num_list))))
       else Inl IndexError)"
    by (rule for_loop_char) (rule body)
  then have "decode C num_list =
      (if (\<forall>x\<in>set num_list. ?ok x)
       then Inr (concat (map (\<lambda>i. [?ch (num_list ! i)]) [0..<length num_list]))
       else Inl IndexError)"
    using assms
    by (simp add: decode_def ball_py_range_nth [where P = "?ok" and xs = num_list])
       (simp add: py_range_def)
  then show ?thesis
    by (simp add: concat_singletons map_nth_fun [of ?ch num_list])
qed

lemma decode_encoded:
  assumes "codeword_length C = 1" "set text_str \<subseteq> set (alphabet_string C)"
  shows "decode C (map (\<lambda>c. projr (str_index (alphabet_string C) c)) text_str) = Inr text_str"
proof -
  let ?a = "alphabet_string C"
  let ?k = "\<lambda>c. projr (str_index ?a c)"
  have pos: "0 \<le> ?k c \<and> ?k c < int (length ?a) \<and> ?a ! nat (?k c) = c" if "c \<in> set text_str" for c
  proof -
    from that assms(2) have "c \<in> set ?a" by blast
    then obtain k where "str_index ?a c = Inr (int k)" "k < length ?a" "?a ! k = c"
      using str_index_mem by blast
    then show ?thesis by simp
  qed
  have range: "\<forall>x\<in>set (map ?k text_str). - int (length ?a) \<le> x \<and> x < int (length ?a)"
    using pos by fastforce
  have chars: "map (\<lambda>x. ?a ! nat (if x < 0 then int (length ?a) + x else x)) (map ?k text_str) = text_str"
    unfolding map_map comp_def by (rule map_idI) (use pos in force)
  have "decode C (map ?k text_str) =
      (if \<forall>x\<in>set (map ?k text_str). - int (length ?a) \<le> x \<and> x < int (length ?a)
       then Inr (map (\<lambda>x. ?a ! nat (if x < 0 then int (length ?a) + x else x)) (map ?k text_str))
       else Inl IndexError)"
    by (rule decode_char [OF assms(1)])
  also have "\<dots> = Inr (map (\<lambda>x. ?a ! nat (if x < 0 then int (length ?a) + x else x)) (map ?k text_str))"
    using range by (rule if_P)
  also have "\<dots> = Inr text_str"
    by (simp only: chars)
  finally show ?thesis .
qed


subsection \<open>Construction and word length\<close>

text \<open>
  Claim C3 says that constructing a coder with a word length other than 1 fails at once
  with \<open>NotImplemented\<close>. The constructor has no check: it returns a coder for every
  word length.
\<close>

theorem init_accepts_word_length_2:
  "CodeForAlphabet_init ''ABCDE'' 2 \<noteq> Inl NotImplementedError"
  by (simp add: CodeForAlphabet_init_def)

text \<open>
  Claim C3, as the code has it: for every alphabet string and every word length the
  construction succeeds; when the word length is not 1, every later call of
  \<^verbatim>\<open>encode\<close> and of \<^verbatim>\<open>decode\<close> fails with \<open>NotImplementedError\<close>.
\<close>

theorem word_length_checked_at_use:
  "CodeForAlphabet_init alphabet_str word_length =
     Inr \<lparr>codeword_length = word_length, alphabet_string = alphabet_str\<rparr> \<and>
   (word_length \<noteq> 1 \<longrightarrow>
      encode \<lparr>codeword_length = word_length, alphabet_string = alphabet_str\<rparr> text_str
        = Inl NotImplementedError \<and>
      decode \<lparr>codeword_length = word_length, alphabet_string = alphabet_str\<rparr> num_list
        = Inl NotImplementedError)"
  by (simp add: CodeForAlphabet_init_def encode_def decode_def)

theorem word_length_checked_at_use_witness:
  "CodeForAlphabet_init ''ABCDE'' 2 = Inr \<lparr>codeword_length = 2, alphabet_string = ''ABCDE''\<rparr> \<and>
   encode \<lparr>codeword_length = 2, alphabet_string = ''ABCDE''\<rparr> ''AAABCEE'' = Inl NotImplementedError \<and>
   decode \<lparr>codeword_length = 2, alphabet_string = ''ABCDE''\<rparr> [0, 1] = Inl NotImplementedError"
  using word_length_checked_at_use [of "''ABCDE''" 2 "''AAABCEE''" "[0, 1]"] by simp

subsection \<open>The index range of decode\<close>

text \<open>
  Claim C4 says that \<^verbatim>\<open>decode\<close> fails with \<open>IndexOutOfRange\<close> on every list that
  holds an integer outside \<open>[0, L)\<close>, negative integers included. Python reads a
  negative index from the end of the string: over \<^verbatim>\<open>"ABCDE"\<close> the list \<open>[-1]\<close>
  decodes to \<^verbatim>\<open>"E"\<close>.
\<close>

theorem decode_negative_index:
  "decode \<lparr>codeword_length = 1, alphabet_string = ''ABCDE''\<rparr> [-1] = Inr ''E''"
  by (simp add: decode_def py_range_def decode_body_def str_getitem_def)

text \<open>
  Claim C4, as the code has it: for a coder of word length 1 over an alphabet of length
  \<open>L\<close>, \<^verbatim>\<open>decode\<close> succeeds exactly on the lists whose integers all lie in
  \<open>[-L, L)\<close>, an integer \<open>i < 0\<close> selecting the character at \<open>L + i\<close>; on every other
  list it fails with \<open>IndexError\<close>.
\<close>

theorem decode_index_range:
  "codeword_length C = 1 \<Longrightarrow>
   decode C num_list =
     (if \<forall>x\<in>set num_list. - int (length (alphabet_string C)) \<le> x \<and> x < int (length (alphabet_string C))
      then Inr (map (\<lambda>x. alphabet_string C ! nat (if x < 0 then int (length (alphabet_string C)) + x else x)) num_list)
      else Inl IndexError)"
  by (rule decode_char)

theorem decode_index_range_witness:
  "decode \<lparr>codeword_length = 1, alphabet_string = ''ABCDE''\<rparr> [-5, -1, 0, 4] = Inr ''AEAE'' \<and>
   decode \<lparr>codeword_length = 1, alphabet_string = ''ABCDE''\<rparr> [0, 5] = Inl IndexError \<and>
   decode \<lparr>codeword_length = 1, alphabet_string = ''ABCDE''\<rparr> [-6] = Inl IndexError"
  using decode_index_range [of "\<lparr>codeword_length = 1, alphabet_string = ''ABCDE''\<rparr>" "[-5, -1, 0, 4]"]
    decode_index_range [of "\<lparr>codeword_length = 1, alphabet_string = ''ABCDE''\<rparr>" "[0, 5]"]
    decode_index_range [of "\<lparr>codeword_length = 1, alphabet_string = ''ABCDE''\<rparr>" "[-6]"]
  by simp

subsection \<open>The round trip of the coder\<close>

text \<open>
  Claim C6: for every coder (of word length 1, the only one the specification has) whose
  alphabet is duplicate-free and every text made of alphabet characters,
  \<^verbatim>\<open>decode(encode(text))\<close> returns the text; for the alphabet \<^verbatim>\<open>"ABCDE"\<close>,
  \<^verbatim>\<open>encode("AAABCEE")\<close> is \<open>[0,0,0,1,2,4,4]\<close> and \<^verbatim>\<open>decode\<close> of that list is
  \<^verbatim>\<open>"AAABCEE"\<close>.
\<close>

theorem decode_encode_roundtrip:
  "(codeword_length C = 1 \<and> distinct (alphabet_string C) \<and> set text_str \<subseteq> set (alphabet_string C)
      \<longrightarrow> decode_of_encode C text_str = Inr text_str) \<and>
   encode \<lparr>codeword_length = 1, alphabet_string = ''ABCDE''\<rparr> ''AAABCEE'' = Inr [0, 0, 0, 1, 2, 4, 4] \<and>
   decode \<lparr>codeword_length = 1, alphabet_string = ''ABCDE''\<rparr> [0, 0, 0, 1, 2, 4, 4] = Inr ''AAABCEE''"
proof (intro conjI impI)
  assume h: "codeword_length C = 1 \<and> distinct (alphabet_string C) \<and> set text_str \<subseteq> set (alphabet_string C)"
  then show "decode_of_encode C text_str = Inr text_str"
    by (simp add: decode_of_encode_def encode_ok decode_encoded)
next
  show "encode \<lparr>codeword_length = 1, alphabet_string = ''ABCDE''\<rparr> ''AAABCEE'' = Inr [0, 0, 0, 1, 2, 4, 4]"
    by (simp add: encode_def py_range_def encode_body_def)
next
  show "decode \<lparr>codeword_length = 1, alphabet_string = ''ABCDE''\<rparr> [0, 0, 0, 1, 2, 4, 4] = Inr ''AAABCEE''"
    by (simp add: decode_def py_range_def decode_body_def str_getitem_def)
qed

theorem decode_encode_roundtrip_witness:
  "decode_of_encode \<lparr>codeword_length = 1, alphabet_string = ''ABCDE''\<rparr> ''AAABCEE'' = Inr ''AAABCEE''"
  using decode_encode_roundtrip [of "\<lparr>codeword_length = 1, alphabet_string = ''ABCDE''\<rparr>" "''AAABCEE''"]
  by simp


section \<open>Matrices modulo N\<close>

lemma dot_sum:
  assumes "length u = n" "length v = n"
  shows "dot u v = (\<Sum>i<n. u ! i * v ! i)"
proof -
  have "map2 (*) u v = map (\<lambda>i. u ! i * v ! i) [0..<n]"
    using assms by (intro nth_equalityI) simp_all
  then have "dot u v = sum_list (map (\<lambda>i. u ! i * v ! i) [0..<n])"
    by (simp add: dot_def)
  also have "\<dots> = (\<Sum>i<n. u ! i * v ! i)"
    by (simp add: interv_sum_list_conv_sum_set_nat atLeast0LessThan)
  finally show ?thesis .
qed

lemma sum_mod_right:
  fixes a b :: "nat \<Rightarrow> int"
  shows "(\<Sum>i<n. a i * (b i mod m)) mod m = (\<Sum>i<n. a i * b i) mod m"
proof -
  have "(\<Sum>i<n. a i * (b i mod m)) mod m = (\<Sum>i<n. (a i * (b i mod m)) mod m) mod m"
    by (simp only: mod_sum_eq)
  also have "\<dots> = (\<Sum>i<n. (a i * b i) mod m) mod m"
    by (simp only: mod_mult_right_eq)
  also have "\<dots> = (\<Sum>i<n. a i * b i) mod m"
    by (simp only: mod_sum_eq)
  finally show ?thesis .
qed

lemma sum_mod_left:
  fixes a b :: "nat \<Rightarrow> int"
  shows "(\<Sum>i<n. (a i mod m) * b i) mod m = (\<Sum>i<n. a i * b i) mod m"
  using sum_mod_right [where a = b and b = a and n = n and m = m] by (simp add: mult.commute)

lemma is_square_rows: "is_square A \<Longrightarrow> i < length A \<Longrightarrow> length (A ! i) = length A"
  by (simp add: is_square_def list_all_length)

lemma length_col: "length (col B j) = length B"
  by (simp add: col_def)

lemma nth_col: "i < length B \<Longrightarrow> col B j ! i = B ! i ! j"
  by (simp add: col_def)

lemma length_mat_vec_mod: "length (mat_vec_mod N A v) = length A"
  by (simp add: mat_vec_mod_def)

lemma mat_mul_mod_nth:
  assumes "k < length D" "j < length E"
  shows "mat_mul_mod N D E ! k ! j = dot (D ! k) (col E j) mod int N"
  using assms by (simp add: mat_mul_mod_def)

lemma length_mat_mul_mod_row:
  "k < length D \<Longrightarrow> length (mat_mul_mod N D E ! k) = length E"
  by (simp add: mat_mul_mod_def)

lemma identity_nth:
  "k < n \<Longrightarrow> j < n \<Longrightarrow> identity_matrix n ! k ! j = (if k = j then 1 else 0)"
  by (simp add: identity_matrix_def)

lemma length_identity_row: "k < n \<Longrightarrow> length (identity_matrix n ! k) = n"
  by (simp add: identity_matrix_def)

lemma dot_identity_row:
  assumes "k < n" "length v = n"
  shows "dot (identity_matrix n ! k) v = v ! k"
proof -
  have "dot (identity_matrix n ! k) v = (\<Sum>j<n. identity_matrix n ! k ! j * v ! j)"
    using assms by (intro dot_sum) (simp_all add: length_identity_row)
  also have "\<dots> = (\<Sum>j<n. if k = j then v ! j else 0)"
    using assms by (intro sum.cong) (simp_all add: identity_nth)
  also have "\<dots> = v ! k"
    using assms by simp
  finally show ?thesis .
qed

lemma mat_vec_compose:
  assumes sqD: "is_square D" and sqE: "is_square E"
    and lD: "length D = n" and lE: "length E = n" and lv: "length v = n" and k: "k < n"
  shows "dot (D ! k) (mat_vec_mod N E v) mod int N = dot (mat_mul_mod N D E ! k) v mod int N"
proof -
  have rowD: "length (D ! k) = n"
    using sqD lD k by (simp add: is_square_rows)
  have rowE: "\<And>i. i < n \<Longrightarrow> length (E ! i) = n"
    using sqE lE by (simp add: is_square_rows)
  have lhs: "dot (D ! k) (mat_vec_mod N E v) mod int N
      = (\<Sum>i<n. D ! k ! i * (\<Sum>j<n. E ! i ! j * v ! j)) mod int N"
  proof -
    have "dot (D ! k) (mat_vec_mod N E v) = (\<Sum>i<n. D ! k ! i * mat_vec_mod N E v ! i)"
      using rowD lE by (intro dot_sum) (simp_all add: length_mat_vec_mod)
    also have "\<dots> = (\<Sum>i<n. D ! k ! i * ((\<Sum>j<n. E ! i ! j * v ! j) mod int N))"
    proof (intro sum.cong refl)
      fix i assume "i \<in> {..<n}"
      then have i: "i < n" by simp
      then have "mat_vec_mod N E v ! i = dot (E ! i) v mod int N"
        using lE by (simp add: mat_vec_mod_def)
      also have "dot (E ! i) v = (\<Sum>j<n. E ! i ! j * v ! j)"
        using rowE [OF i] lv by (rule dot_sum)
      finally show "D ! k ! i * mat_vec_mod N E v ! i = D ! k ! i * ((\<Sum>j<n. E ! i ! j * v ! j) mod int N)"
        by simp
    qed
    finally show ?thesis
      by (simp only: sum_mod_right)
  qed
  have rhs: "dot (mat_mul_mod N D E ! k) v mod int N
      = (\<Sum>j<n. (\<Sum>i<n. D ! k ! i * E ! i ! j) * v ! j) mod int N"
  proof -
    have "dot (mat_mul_mod N D E ! k) v = (\<Sum>j<n. mat_mul_mod N D E ! k ! j * v ! j)"
      using lD lE k lv by (intro dot_sum) (simp_all add: length_mat_mul_mod_row)
    also have "\<dots> = (\<Sum>j<n. ((\<Sum>i<n. D ! k ! i * E ! i ! j) mod int N) * v ! j)"
    proof (intro sum.cong refl)
      fix j assume "j \<in> {..<n}"
      then have j: "j < n" by simp
      have "mat_mul_mod N D E ! k ! j = dot (D ! k) (col E j) mod int N"
        using k j lD lE by (simp add: mat_mul_mod_nth)
      also have "dot (D ! k) (col E j) = (\<Sum>i<n. D ! k ! i * col E j ! i)"
        using rowD lE by (intro dot_sum) (simp_all add: length_col)
      also have "\<dots> = (\<Sum>i<n. D ! k ! i * E ! i ! j)"
        using lE by (intro sum.cong) (simp_all add: nth_col)
      finally show "mat_mul_mod N D E ! k ! j * v ! j = ((\<Sum>i<n. D ! k ! i * E ! i ! j) mod int N) * v ! j"
        by simp
    qed
    finally show ?thesis
      by (simp only: sum_mod_left)
  qed
  have "(\<Sum>i<n. D ! k ! i * (\<Sum>j<n. E ! i ! j * v ! j))
      = (\<Sum>i<n. \<Sum>j<n. D ! k ! i * E ! i ! j * v ! j)"
    by (simp add: sum_distrib_left mult.assoc)
  also have "\<dots> = (\<Sum>j<n. \<Sum>i<n. D ! k ! i * E ! i ! j * v ! j)"
    by (rule sum.swap)
  also have "\<dots> = (\<Sum>j<n. (\<Sum>i<n. D ! k ! i * E ! i ! j) * v ! j)"
    by (simp add: sum_distrib_right)
  finally show ?thesis
    by (simp only: lhs rhs)
qed

lemma mat_vec_inverse:
  assumes sqD: "is_square D" and sqE: "is_square E"
    and lD: "length D = n" and lE: "length E = n" and lv: "length v = n"
    and inv: "mat_mul_mod N D E = identity_matrix n"
  shows "mat_vec_mod N D (mat_vec_mod N E v) = map (\<lambda>x. x mod int N) v"
proof (rule nth_equalityI)
  show "length (mat_vec_mod N D (mat_vec_mod N E v)) = length (map (\<lambda>x. x mod int N) v)"
    using lD lv by (simp add: length_mat_vec_mod)
next
  fix k assume "k < length (mat_vec_mod N D (mat_vec_mod N E v))"
  then have k: "k < n"
    using lD by (simp add: length_mat_vec_mod)
  have "mat_vec_mod N D (mat_vec_mod N E v) ! k = dot (D ! k) (mat_vec_mod N E v) mod int N"
    using k lD by (simp add: mat_vec_mod_def)
  also have "\<dots> = dot (mat_mul_mod N D E ! k) v mod int N"
    using sqD sqE lD lE lv k by (rule mat_vec_compose)
  also have "\<dots> = v ! k mod int N"
    using k lv by (simp add: inv dot_identity_row)
  finally show "mat_vec_mod N D (mat_vec_mod N E v) ! k = map (\<lambda>x. x mod int N) v ! k"
    using k lv by simp
qed

section \<open>The engine and its block loop\<close>

lemma length_reduce: "length (reduce N A) = length A"
  by (simp add: reduce_def)

lemma is_square_reduce: "is_square (reduce N A) = is_square A"
  by (simp add: reduce_def is_square_def list_all_iff)

lemma reduce_reduce: "reduce N (reduce N A) = reduce N A"
  by (simp add: reduce_def)

lemma all_matrices_elem:
  assumes "B \<in> set (all_matrices N n)"
  shows "length B = n \<and> is_square B \<and> reduce N B = B"
proof -
  from assms have len: "length B = n"
    and rows: "set B \<subseteq> set (List.n_lists n (map int [0..<N]))"
    by (simp_all add: all_matrices_def set_n_lists)
  have row: "length r = n \<and> (\<forall>x\<in>set r. x mod int N = x)" if "r \<in> set B" for r
  proof -
    from that rows have "length r = n" "set r \<subseteq> set (map int [0..<N])"
      by (auto simp: set_n_lists)
    then show ?thesis by auto
  qed
  have "is_square B"
    using row len by (simp add: is_square_def list_all_iff)
  moreover have "reduce N B = B"
    unfolding reduce_def by (intro map_idI) (use row in blast)
  ultimately show ?thesis using len by simp
qed

lemma all_matrices_modulus_pos:
  assumes "B \<in> set (all_matrices N n)" "0 < n"
  shows "0 < N"
proof (rule ccontr)
  assume "\<not> 0 < N"
  then have "List.n_lists n (map int [0..<N]) = []"
    using assms(2) by (cases n) simp_all
  then have "all_matrices N n = []"
    using assms(2) by (cases n) (simp_all add: all_matrices_def)
  with assms(1) show False by simp
qed

lemma matrix_inverse_Some:
  assumes "matrix_inverse N A = Some B"
  shows "is_square A \<and> B \<in> set (all_matrices N (length A)) \<and> is_inverse_mod N A B"
proof -
  from assms have sq: "is_square A"
    by (simp add: matrix_inverse_def split: if_splits)
  with assms have "find (is_inverse_mod N A) (all_matrices N (length A)) = Some B"
    by (simp add: matrix_inverse_def)
  then have "B \<in> set (all_matrices N (length A)) \<and> is_inverse_mod N A B"
    by (auto simp: find_Some_iff)
  with sq show ?thesis by simp
qed

lemma choose_modulus_Inr:
  "choose_modulus arg1 arg2 = Inr (N, M) \<Longrightarrow> M = reduce N (entries arg1)"
  by (auto simp: choose_modulus_def base_extend_def Let_def
           split: option.splits if_splits sum.splits ring.splits)

lemma init_engine_ok:
  assumes "HillCipher_init arg1 arg2 pass_decryption_key = Inr H"
  shows "engine_ok H"
proof -
  from assms obtain N M B where cm: "choose_modulus arg1 arg2 = Inr (N, M)"
    and inv: "matrix_inverse N M = Some B"
    and H: "H = (if pass_decryption_key = False
                then \<lparr>encryption_matrix = M, decryption_matrix = B, modulus_attr = N\<rparr>
                else \<lparr>encryption_matrix = B, decryption_matrix = M, modulus_attr = N\<rparr>)"
    by (auto simp: HillCipher_init_def split: sum.splits option.splits if_splits)
  have M: "reduce N M = M"
    using choose_modulus_Inr [OF cm] by (simp add: reduce_reduce)
  from matrix_inverse_Some [OF inv]
  have sqM: "is_square M" and B: "B \<in> set (all_matrices N (length M))"
    and i1: "mat_mul_mod N M B = identity_matrix (length M)"
    and i2: "mat_mul_mod N B M = identity_matrix (length M)"
    by (simp_all add: is_inverse_mod_def)
  from all_matrices_elem [OF B]
  have lB: "length B = length M" and sqB: "is_square B" and rB: "reduce N B = B"
    by simp_all
  have pos: "0 < length M \<Longrightarrow> 0 < N"
    using B by (rule all_matrices_modulus_pos)
  have posB: "0 < N" if "B \<noteq> []"
  proof -
    from that have "0 < length B" by simp
    then have "0 < length M" by (simp only: lB)
    then show ?thesis by (rule pos)
  qed
  show ?thesis
    using H M sqM i1 i2 lB sqB rB pos posB by (simp add: engine_ok_def)
qed

lemma hill_body_no_padding:
  "hill_body N n A pt [] wi s =
     (if length (take n (drop wi pt)) = n
      then Inr (s @ mat_vec_mod N A (take n (drop wi pt)))
      else Inl (RuntimeError PaddingNeeded))"
  by (simp add: hill_body_def Let_def)

lemma range_index_iff:
  fixes n k L :: nat
  assumes "0 < n"
  shows "k < (L + n - 1) div n \<longleftrightarrow> k * n < L"
proof -
  have "k < (L + n - 1) div n \<longleftrightarrow> Suc k \<le> (L + n - 1) div n"
    by (simp add: Suc_le_eq)
  also have "\<dots> \<longleftrightarrow> Suc k * n \<le> L + n - 1"
    using assms by (rule less_eq_div_iff_mult_less_eq)
  also have "\<dots> \<longleftrightarrow> k * n < L"
    using assms by (cases n) auto
  finally show ?thesis .
qed

lemma block_full_iff:
  fixes n w :: nat
  assumes "0 < n"
  shows "length (take n (drop w pt)) = n \<longleftrightarrow> w + n \<le> length pt"
  using assms by (simp add: min_def) arith

lemma full_blocks_iff:
  fixes n L :: nat
  assumes "0 < n"
  shows "(\<forall>k. k * n < L \<longrightarrow> k * n + n \<le> L) \<longleftrightarrow> n dvd L"
proof
  assume all: "\<forall>k. k * n < L \<longrightarrow> k * n + n \<le> L"
  show "n dvd L"
  proof (rule ccontr)
    assume "\<not> n dvd L"
    then have r: "0 < L mod n" by (simp add: dvd_eq_mod_eq_0)
    have L: "(L div n) * n + L mod n = L" by simp
    have "(L div n) * n < L" using r L by linarith
    with all have "(L div n) * n + n \<le> L" by blast
    moreover have "L mod n < n" using assms by simp
    ultimately show False using L by linarith
  qed
next
  assume "n dvd L"
  then obtain q where "L = n * q" by (rule dvdE)
  then have L: "L = q * n" by (simp only: mult.commute)
  show "\<forall>k. k * n < L \<longrightarrow> k * n + n \<le> L"
  proof (intro allI impI)
    fix k assume "k * n < L"
    then have "k < q" using L assms by simp
    then have "Suc k \<le> q" by simp
    then have "Suc k * n \<le> q * n" by (rule mult_le_mono1)
    then show "k * n + n \<le> L" using L by simp
  qed
qed

lemma hill_loop:
  assumes n: "0 < n"
  shows "for_loop (hill_body N n A pt []) (map (\<lambda>k. k * n) [0..<(length pt + n - 1) div n]) [] =
     (if n dvd length pt
      then Inr (concat (map (\<lambda>k. mat_vec_mod N A (take n (drop (k * n) pt))) [0..<length pt div n]))
      else Inl (RuntimeError PaddingNeeded))"
proof -
  let ?is = "map (\<lambda>k. k * n) [0..<(length pt + n - 1) div n]"
  let ?ok = "\<lambda>wi. length (take n (drop wi pt)) = n"
  let ?g = "\<lambda>wi. mat_vec_mod N A (take n (drop wi pt))"
  have loop: "for_loop (hill_body N n A pt []) ?is [] =
      (if (\<forall>wi\<in>set ?is. ?ok wi) then Inr ([] @ concat (map ?g ?is))
       else Inl (RuntimeError PaddingNeeded))"
    by (rule for_loop_char) (rule hill_body_no_padding)
  have "(\<forall>wi\<in>set ?is. ?ok wi) \<longleftrightarrow> (\<forall>k. k * n < length pt \<longrightarrow> k * n + n \<le> length pt)"
  proof -
    have "(\<forall>wi\<in>set ?is. ?ok wi) \<longleftrightarrow> (\<forall>k. k < (length pt + n - 1) div n \<longrightarrow> ?ok (k * n))"
      by auto
    also have "\<dots> \<longleftrightarrow> (\<forall>k. k * n < length pt \<longrightarrow> ?ok (k * n))"
      by (simp only: range_index_iff [OF n])
    also have "\<dots> \<longleftrightarrow> (\<forall>k. k * n < length pt \<longrightarrow> k * n + n \<le> length pt)"
      by (simp only: block_full_iff [OF n])
    finally show ?thesis .
  qed
  then have ok: "(\<forall>wi\<in>set ?is. ?ok wi) \<longleftrightarrow> n dvd length pt"
    by (simp only: full_blocks_iff [OF n])
  have m: "(length pt + n - 1) div n = length pt div n" if "n dvd length pt"
  proof -
    from that obtain q where "length pt = n * q" by (rule dvdE)
    then have q: "length pt = q * n" by (simp only: mult.commute)
    have "k < (q * n + n - 1) div n \<longleftrightarrow> k < q" for k
    proof -
      have "k < (q * n + n - 1) div n \<longleftrightarrow> k * n < q * n"
        using n by (rule range_index_iff)
      also have "\<dots> \<longleftrightarrow> k < q"
        using n by simp
      finally show ?thesis .
    qed
    then have "(q * n + n - 1) div n = q"
      by (metis nat_neq_iff)
    then show ?thesis using q n by simp
  qed
  show ?thesis
  proof (cases "n dvd length pt")
    case True
    then show ?thesis
      using loop ok m [OF True] by (simp add: comp_def)
  next
    case False
    then show ?thesis
      using loop ok by simp
  qed
qed

lemma apply_Hill_matrix_no_padding:
  assumes "0 < block_size H"
  shows "apply_Hill_matrix H K pt [] =
     (if block_size H dvd length pt
      then Inr (concat (map (\<lambda>k. mat_vec_mod (modulus_attr H) (reduce (modulus_attr H) K)
                                   (take (block_size H) (drop (k * block_size H) pt)))
                            [0..<length pt div block_size H]))
      else Inl (RuntimeError PaddingNeeded))"
  using assms by (simp add: apply_Hill_matrix_def py_range_step_def Let_def hill_loop del: One_nat_def)

lemma concat_chunks:
  fixes n q :: nat
  shows "q * n \<le> length xs \<Longrightarrow>
    concat (map (\<lambda>k. take n (drop (k * n) xs)) [0..<q]) = take (q * n) xs"
proof (induction q)
  case 0
  then show ?case by simp
next
  case (Suc q)
  then have "concat (map (\<lambda>k. take n (drop (k * n) xs)) [0..<q]) = take (q * n) xs"
    by simp
  then have "concat (map (\<lambda>k. take n (drop (k * n) xs)) [0..<Suc q])
      = take (q * n) xs @ take n (drop (q * n) xs)"
    by simp
  also have "\<dots> = take (q * n + n) xs"
    by (rule take_add [symmetric])
  finally show ?case by (simp add: add.commute)
qed

lemma length_concat_blocks:
  fixes n q :: nat
  shows "(\<And>k. k < q \<Longrightarrow> length (f k) = n) \<Longrightarrow> length (concat (map f [0..<q])) = q * n"
  by (induction q) simp_all

lemma chunk_of_concat:
  fixes n q k :: nat
  assumes "\<And>k. k < q \<Longrightarrow> length (f k) = n" "k < q"
  shows "take n (drop (k * n) (concat (map f [0..<q]))) = f k"
  using assms
proof (induction q)
  case 0
  then show ?case by simp
next
  case (Suc q)
  let ?xs = "concat (map f [0..<q])"
  have len: "length ?xs = q * n"
    using Suc.prems(1) by (intro length_concat_blocks) simp
  have fq: "length (f q) = n"
    using Suc.prems(1) by simp
  show ?case
  proof (cases "k < q")
    case True
    then have IH: "take n (drop (k * n) ?xs) = f k"
      using Suc.IH Suc.prems(1) by simp
    from True have "Suc k \<le> q" by simp
    then have "Suc k * n \<le> q * n" by (rule mult_le_mono1)
    then have le: "k * n + n \<le> length ?xs" using len by simp
    then have "take n (drop (k * n) (?xs @ f q)) = take n (drop (k * n) ?xs)"
      by simp
    then show ?thesis using IH by simp
  next
    case False
    with Suc.prems(2) have "k = q" by simp
    then show ?thesis using len fq by simp
  qed
qed

lemma encrypt_blocks:
  assumes "engine_ok H" "0 < block_size H"
  shows "encrypt H pt pad =
     (if block_size H dvd length pt
      then Inr (concat (map (\<lambda>k. mat_vec_mod (modulus_attr H) (encryption_matrix H)
                                   (take (block_size H) (drop (k * block_size H) pt)))
                            [0..<length pt div block_size H]))
      else Inl (RuntimeError PaddingNeeded))"
proof -
  have "reduce (modulus_attr H) (encryption_matrix H) = encryption_matrix H"
    using assms(1) by (simp add: engine_ok_def)
  then show ?thesis
    using apply_Hill_matrix_no_padding [OF assms(2), of "encryption_matrix H" pt]
    by (simp add: encrypt_def)
qed

lemma decrypt_blocks:
  assumes "engine_ok H" "0 < block_size H"
  shows "decrypt H ct pad =
     (if block_size H dvd length ct
      then Inr (concat (map (\<lambda>k. mat_vec_mod (modulus_attr H) (decryption_matrix H)
                                   (take (block_size H) (drop (k * block_size H) ct)))
                            [0..<length ct div block_size H]))
      else Inl (RuntimeError PaddingNeeded))"
proof -
  have "reduce (modulus_attr H) (decryption_matrix H) = decryption_matrix H"
    using assms(1) by (simp add: engine_ok_def)
  then show ?thesis
    using apply_Hill_matrix_no_padding [OF assms(2), of "decryption_matrix H" ct]
    by (simp add: decrypt_def)
qed

lemma decrypt_encrypt_mod:
  assumes ok: "engine_ok H" and n: "0 < block_size H" and dvd: "block_size H dvd length x"
  shows "decrypt_of_encrypt H x = Inr (map (\<lambda>v. v mod int (modulus_attr H)) x)"
proof -
  let ?n = "block_size H" and ?N = "modulus_attr H"
  let ?E = "encryption_matrix H" and ?D = "decryption_matrix H"
  let ?q = "length x div ?n"
  let ?chunk = "\<lambda>k. take ?n (drop (k * ?n) x)"
  let ?c = "\<lambda>k. mat_vec_mod ?N ?E (?chunk k)"
  let ?ct = "concat (map ?c [0..<?q])"
  have lx: "length x = ?q * ?n"
    using dvd by simp
  have lE: "length ?E = ?n" by (simp add: block_size_def)
  have lD: "length ?D = ?n" using ok by (simp add: engine_ok_def block_size_def)
  have sqE: "is_square ?E" and sqD: "is_square ?D"
    and inv: "mat_mul_mod ?N ?D ?E = identity_matrix ?n"
    using ok by (simp_all add: engine_ok_def block_size_def)
  have enc: "encrypt H x [] = Inr ?ct"
    using encrypt_blocks [OF ok n, of x "[]"] dvd by simp
  have lc: "length (?c k) = ?n" for k
    by (simp add: length_mat_vec_mod lE)
  have lct: "length ?ct = ?q * ?n"
    by (rule length_concat_blocks) (rule lc)
  then have dvd': "?n dvd length ?ct" and q': "length ?ct div ?n = ?q"
    using n by simp_all
  have dec: "decrypt H ?ct [] =
      Inr (concat (map (\<lambda>k. mat_vec_mod ?N ?D (take ?n (drop (k * ?n) ?ct))) [0..<?q]))"
    using decrypt_blocks [OF ok n, of ?ct "[]"] dvd' q' by simp
  have block: "mat_vec_mod ?N ?D (take ?n (drop (k * ?n) ?ct)) = map (\<lambda>v. v mod int ?N) (?chunk k)"
    if "k < ?q" for k
  proof -
    have "take ?n (drop (k * ?n) ?ct) = ?c k"
      using lc that by (rule chunk_of_concat)
    moreover have "length (?chunk k) = ?n"
    proof -
      from that have "Suc k \<le> ?q" by simp
      then have "Suc k * ?n \<le> ?q * ?n" by (rule mult_le_mono1)
      then have "k * ?n + ?n \<le> length x" using lx by simp
      then show ?thesis by simp
    qed
    ultimately show ?thesis
      using mat_vec_inverse [OF sqD sqE lD lE _ inv, of "?chunk k"] by simp
  qed
  have "concat (map (\<lambda>k. mat_vec_mod ?N ?D (take ?n (drop (k * ?n) ?ct))) [0..<?q])
      = concat (map (\<lambda>k. map (\<lambda>v. v mod int ?N) (?chunk k)) [0..<?q])"
    using block by (intro arg_cong [where f = concat] map_cong refl) simp
  also have "\<dots> = map (\<lambda>v. v mod int ?N) (concat (map ?chunk [0..<?q]))"
    by (simp add: map_concat comp_def)
  also have "concat (map ?chunk [0..<?q]) = take (?q * ?n) x"
    using lx by (intro concat_chunks) simp
  also have "take (?q * ?n) x = x"
    using lx by simp
  finally show ?thesis
    using enc dec by (simp add: decrypt_of_encrypt_def)
qed


section \<open>The inverse modulo N is unique\<close>

text \<open>
  A matrix with entries in \<open>[0, N)\<close> that is a right inverse and one that is a left
  inverse of the same square matrix are equal. So \<open>matrix_inverse\<close> returns the inverse
  whenever there is one, whatever the order of the search.
\<close>

lemma mat_vec_mod_col:
  assumes "length B = n" "j < n"
  shows "mat_vec_mod N A (col B j) = col (mat_mul_mod N A B) j"
proof (rule nth_equalityI)
  show "length (mat_vec_mod N A (col B j)) = length (col (mat_mul_mod N A B) j)"
    by (simp add: length_mat_vec_mod length_col mat_mul_mod_def)
next
  fix i assume "i < length (mat_vec_mod N A (col B j))"
  then have i: "i < length A"
    by (simp add: length_mat_vec_mod)
  have "mat_vec_mod N A (col B j) ! i = dot (A ! i) (col B j) mod int N"
    using i by (simp add: mat_vec_mod_def)
  also have "\<dots> = mat_mul_mod N A B ! i ! j"
    using i assms by (simp add: mat_mul_mod_nth)
  also have "\<dots> = col (mat_mul_mod N A B) j ! i"
    using i by (simp add: nth_col mat_mul_mod_def)
  finally show "mat_vec_mod N A (col B j) ! i = col (mat_mul_mod N A B) j ! i" .
qed

lemma col_reduce: "col (reduce N B) j = map (\<lambda>x. x mod int N) (col B j)"
  if "\<forall>r\<in>set B. j < length r"
  using that by (simp add: col_def reduce_def)

lemma inverse_unique:
  assumes sqA: "is_square A" and lA: "length A = n"
    and B: "B \<in> set (all_matrices N n)" and B': "B' \<in> set (all_matrices N n)"
    and AB: "mat_mul_mod N A B = identity_matrix n"
    and B'A: "mat_mul_mod N B' A = identity_matrix n"
  shows "B = B'"
proof -
  from all_matrices_elem [OF B] have lB: "length B = n" and sqB: "is_square B" and rB: "reduce N B = B"
    by simp_all
  from all_matrices_elem [OF B'] have lB': "length B' = n" and sqB': "is_square B'" and rB': "reduce N B' = B'"
    by simp_all
  have rows: "\<forall>r\<in>set B. j < length r" if "j < n" for j
    using sqB lB that by (simp add: is_square_def list_all_iff)
  have colB: "col B j = mat_vec_mod N B' (col (identity_matrix n) j)" if j: "j < n" for j
  proof -
    have len: "length (col B j) = n"
      by (simp add: length_col lB)
    have "mat_vec_mod N B' (mat_vec_mod N A (col B j)) = map (\<lambda>x. x mod int N) (col B j)"
      using sqB' sqA lB' lA len B'A by (rule mat_vec_inverse)
    also have "map (\<lambda>x. x mod int N) (col B j) = col (reduce N B) j"
      using rows [OF j] by (simp add: col_reduce)
    also have "\<dots> = col B j"
      by (simp only: rB)
    finally have "mat_vec_mod N B' (mat_vec_mod N A (col B j)) = col B j" .
    moreover have "mat_vec_mod N A (col B j) = col (identity_matrix n) j"
      using mat_vec_mod_col [OF lB j, of N A] by (simp only: AB)
    ultimately show ?thesis by simp
  qed
  have entry: "B ! k ! j = mat_vec_mod N B' (col (identity_matrix n) j) ! k" if "k < n" "j < n" for k j
  proof -
    have "B ! k ! j = col B j ! k"
      using that(1) lB by (simp add: nth_col)
    also have "col B j = mat_vec_mod N B' (col (identity_matrix n) j)"
      using that(2) by (rule colB)
    finally show ?thesis .
  qed
  have entry': "mat_vec_mod N B' (col (identity_matrix n) j) ! k = B' ! k ! j" if k: "k < n" and j: "j < n" for k j
  proof -
    have "mat_vec_mod N B' (col (identity_matrix n) j) ! k
        = dot (B' ! k) (col (identity_matrix n) j) mod int N"
      using k lB' by (simp add: mat_vec_mod_def)
    also have "dot (B' ! k) (col (identity_matrix n) j) = (\<Sum>i<n. B' ! k ! i * col (identity_matrix n) j ! i)"
      using sqB' lB' k by (intro dot_sum) (simp_all add: is_square_rows length_col identity_matrix_def)
    also have "\<dots> = (\<Sum>i<n. if i = j then B' ! k ! i else 0)"
      using j by (intro sum.cong) (simp_all add: nth_col identity_matrix_def)
    also have "\<dots> = B' ! k ! j"
      using j by simp
    finally have "mat_vec_mod N B' (col (identity_matrix n) j) ! k = B' ! k ! j mod int N" .
    moreover have "B' ! k ! j mod int N = B' ! k ! j"
    proof -
      have "reduce N B' ! k ! j = B' ! k ! j mod int N"
        using k j lB' sqB' by (simp add: reduce_def is_square_rows)
      then show ?thesis by (simp only: rB')
    qed
    ultimately show ?thesis by simp
  qed
  show ?thesis
  proof (rule nth_equalityI)
    show "length B = length B'" by (simp add: lB lB')
  next
    fix k assume "k < length B"
    then have k: "k < n" by (simp add: lB)
    show "B ! k = B' ! k"
    proof (rule nth_equalityI)
      show "length (B ! k) = length (B' ! k)"
        using k sqB sqB' lB lB' by (simp add: is_square_rows)
    next
      fix j assume "j < length (B ! k)"
      then have j: "j < n"
        using k sqB lB by (simp add: is_square_rows)
      show "B ! k ! j = B' ! k ! j"
        using entry [OF k j] entry' [OF k j] by simp
    qed
  qed
qed

lemma matrix_inverse_is_the_inverse:
  assumes sqA: "is_square A" and B: "B \<in> set (all_matrices N (length A))"
    and inv: "is_inverse_mod N A B"
  shows "matrix_inverse N A = Some B"
proof -
  from B inv have "find (is_inverse_mod N A) (all_matrices N (length A)) \<noteq> None"
    by (auto simp: find_None_iff)
  then obtain B' where f: "find (is_inverse_mod N A) (all_matrices N (length A)) = Some B'"
    by auto
  then have B': "B' \<in> set (all_matrices N (length A))" and inv': "is_inverse_mod N A B'"
    by (auto simp: find_Some_iff)
  from inv have AB: "mat_mul_mod N A B = identity_matrix (length A)"
    by (simp add: is_inverse_mod_def)
  from inv' have B'A: "mat_mul_mod N B' A = identity_matrix (length A)"
    by (simp add: is_inverse_mod_def)
  have "B = B'"
    using sqA refl B B' AB B'A by (rule inverse_unique)
  with f sqA show ?thesis
    by (simp add: matrix_inverse_def)
qed

section \<open>The claims about HillCipher\<close>

text \<open>
  The example of the class docstring: the matrix \<open>[[1,2],[3,4]]\<close> over \<open>ZZ\<close> with modulus
  3, whose keys are \<open>[[1,2],[0,1]]\<close> and \<open>[[1,1],[0,1]]\<close>.
\<close>

lemma init_example:
  "HillCipher_init \<lparr>base_ring = ZZ, entries = [[1, 2], [3, 4]]\<rparr> (Some 3) False =
     Inr \<lparr>encryption_matrix = [[1, 2], [0, 1]], decryption_matrix = [[1, 1], [0, 1]], modulus_attr = 3\<rparr>"
  by code_simp

lemma init_example_swapped:
  "HillCipher_init \<lparr>base_ring = ZZ, entries = [[1, 2], [3, 4]]\<rparr> (Some 3) True =
     Inr \<lparr>encryption_matrix = [[1, 1], [0, 1]], decryption_matrix = [[1, 2], [0, 1]], modulus_attr = 3\<rparr>"
  by code_simp

lemma init_example_mod3:
  "HillCipher_init \<lparr>base_ring = IntegerModRing 3, entries = [[1, 2], [3, 4]]\<rparr> None False =
     Inr \<lparr>encryption_matrix = [[1, 2], [0, 1]], decryption_matrix = [[1, 1], [0, 1]], modulus_attr = 3\<rparr>"
  by code_simp

lemma mat_vec_mod_range:
  assumes "0 < N" "y \<in> set (mat_vec_mod N A v)"
  shows "0 \<le> y \<and> y < int N"
  using assms by (auto simp: mat_vec_mod_def)

lemma apply_block_size_0:
  "block_size H = 0 \<Longrightarrow> apply_Hill_matrix H K pt pad = Inl ValueError"
  by (simp add: apply_Hill_matrix_def py_range_step_def)

lemma encrypt_range:
  assumes ok: "engine_ok H" and enc: "encrypt H pt pad = Inr ys" and y: "y \<in> set ys"
  shows "0 \<le> y \<and> y < int (modulus_attr H)"
proof (cases "block_size H = 0")
  case True
  then show ?thesis
    using enc by (simp add: encrypt_def apply_block_size_0)
next
  case False
  then have n: "0 < block_size H" by simp
  then have N: "0 < modulus_attr H"
    using ok by (simp add: engine_ok_def block_size_def)
  from enc have "ys = concat (map (\<lambda>k. mat_vec_mod (modulus_attr H) (encryption_matrix H)
        (take (block_size H) (drop (k * block_size H) pt))) [0..<length pt div block_size H])"
    by (simp add: encrypt_blocks [OF ok n] split: if_splits)
  with y obtain v where "y \<in> set (mat_vec_mod (modulus_attr H) (encryption_matrix H) v)"
    by auto
  with N show ?thesis by (rule mat_vec_mod_range)
qed

lemma decrypt_range:
  assumes ok: "engine_ok H" and dec: "decrypt H ct pad = Inr ys" and y: "y \<in> set ys"
  shows "0 \<le> y \<and> y < int (modulus_attr H)"
proof (cases "block_size H = 0")
  case True
  then show ?thesis
    using dec by (simp add: decrypt_def apply_block_size_0)
next
  case False
  then have n: "0 < block_size H" by simp
  then have N: "0 < modulus_attr H"
    using ok by (simp add: engine_ok_def block_size_def)
  from dec have "ys = concat (map (\<lambda>k. mat_vec_mod (modulus_attr H) (decryption_matrix H)
        (take (block_size H) (drop (k * block_size H) ct))) [0..<length ct div block_size H])"
    by (simp add: decrypt_blocks [OF ok n] split: if_splits)
  with y obtain v where "y \<in> set (mat_vec_mod (modulus_attr H) (decryption_matrix H) v)"
    by auto
  with N show ?thesis by (rule mat_vec_mod_range)
qed

lemma encrypt_length:
  assumes ok: "engine_ok H" and n: "0 < block_size H" and dvd: "block_size H dvd length pt"
  shows "\<exists>ys. encrypt H pt pad = Inr ys \<and> length ys = length pt"
proof -
  let ?f = "\<lambda>k. mat_vec_mod (modulus_attr H) (encryption_matrix H)
        (take (block_size H) (drop (k * block_size H) pt))"
  have "length (concat (map ?f [0..<length pt div block_size H])) = length pt div block_size H * block_size H"
    by (rule length_concat_blocks) (simp add: length_mat_vec_mod block_size_def)
  then show ?thesis
    using dvd by (simp add: encrypt_blocks [OF ok n])
qed

lemma decrypt_length:
  assumes ok: "engine_ok H" and n: "0 < block_size H" and dvd: "block_size H dvd length ct"
  shows "\<exists>ys. decrypt H ct pad = Inr ys \<and> length ys = length ct"
proof -
  let ?f = "\<lambda>k. mat_vec_mod (modulus_attr H) (decryption_matrix H)
        (take (block_size H) (drop (k * block_size H) ct))"
  have "length (decryption_matrix H) = block_size H"
    using ok by (simp add: engine_ok_def block_size_def)
  then have "length (concat (map ?f [0..<length ct div block_size H])) = length ct div block_size H * block_size H"
    by (intro length_concat_blocks) (simp add: length_mat_vec_mod)
  then show ?thesis
    using dvd by (simp add: decrypt_blocks [OF ok n])
qed

lemma dot_zero_row: "dot (replicate n 0) v = 0"
proof -
  have "map2 (*) (replicate n (0::int)) v = replicate (min n (length v)) 0"
    by (intro nth_equalityI) simp_all
  then show ?thesis by (simp add: dot_def sum_list_replicate)
qed

lemma zero_matrix_no_inverse:
  assumes "0 < n"
  shows "matrix_inverse N (replicate n (replicate n 0)) = None"
proof -
  let ?Z = "replicate n (replicate n (0::int))"
  have "\<not> is_inverse_mod N ?Z B" if "B \<in> set (all_matrices N n)" for B
  proof
    assume "is_inverse_mod N ?Z B"
    then have eq: "mat_mul_mod N ?Z B = identity_matrix n"
      by (simp add: is_inverse_mod_def)
    have lB: "length B = n"
      using all_matrices_elem [OF that] by simp
    have "mat_mul_mod N ?Z B ! 0 ! 0 = dot (?Z ! 0) (col B 0) mod int N"
      using assms lB by (intro mat_mul_mod_nth) simp_all
    also have "\<dots> = 0"
      using assms by (simp add: dot_zero_row)
    finally have "identity_matrix n ! 0 ! 0 = 0"
      by (simp only: eq)
    then show False
      using assms by (simp add: identity_nth)
  qed
  then have "find (is_inverse_mod N ?Z) (all_matrices N n) = None"
    by (simp add: find_None_iff)
  then show ?thesis
    by (simp add: matrix_inverse_def)
qed

lemma reduce_zero: "reduce N (replicate n (replicate n 0)) = replicate n (replicate n 0)"
  by (simp add: reduce_def)

subsection \<open>The round trip of the cipher\<close>

text \<open>
  Claim C1 says that \<^verbatim>\<open>decrypt(encrypt(x)) == x\<close> for every integer sequence \<open>x\<close> whose
  length is a multiple of the block size. The engine computes modulo \<open>N\<close> and returns
  representatives in \<open>[0, N)\<close>: with the key \<open>[[1,2],[3,4]]\<close> modulo 3, the sequence
  \<open>[3, 0]\<close> comes back as \<open>[0, 0]\<close>.
\<close>

theorem roundtrip_reduces_mod_N:
  "HillCipher_init \<lparr>base_ring = ZZ, entries = [[1, 2], [3, 4]]\<rparr> (Some 3) False =
     Inr \<lparr>encryption_matrix = [[1, 2], [0, 1]], decryption_matrix = [[1, 1], [0, 1]], modulus_attr = 3\<rparr> \<and>
   decrypt_of_encrypt
     \<lparr>encryption_matrix = [[1, 2], [0, 1]], decryption_matrix = [[1, 1], [0, 1]], modulus_attr = 3\<rparr>
     [3, 0] = Inr [0, 0] \<and>
   decrypt_of_encrypt
     \<lparr>encryption_matrix = [[1, 2], [0, 1]], decryption_matrix = [[1, 1], [0, 1]], modulus_attr = 3\<rparr>
     [3, 0] \<noteq> Inr [3, 0]"
proof -
  have "decrypt_of_encrypt
     \<lparr>encryption_matrix = [[1, 2], [0, 1]], decryption_matrix = [[1, 1], [0, 1]], modulus_attr = 3\<rparr>
     [3, 0] = Inr [0, 0]"
    by code_simp
  then show ?thesis
    using init_example by simp
qed

text \<open>
  Claim C1, as the code has it: for every successfully constructed engine with block size
  \<open>n \<ge> 1\<close> and modulus \<open>N\<close>, and every integer sequence \<open>x\<close> whose length is a
  multiple of \<open>n\<close>, \<^verbatim>\<open>decrypt(encrypt(x))\<close> succeeds and returns \<open>x\<close> with every entry
  reduced modulo \<open>N\<close>; it is \<open>x\<close> itself when every entry of \<open>x\<close> lies in \<open>[0, N)\<close>.
\<close>

theorem decrypt_encrypt_roundtrip:
  assumes "HillCipher_init arg1 arg2 pass_decryption_key = Inr H"
    and "0 < block_size H" and "block_size H dvd length x"
  shows "decrypt_of_encrypt H x = Inr (map (\<lambda>v. v mod int (modulus H)) x) \<and>
    ((\<forall>v\<in>set x. 0 \<le> v \<and> v < int (modulus H)) \<longrightarrow> decrypt_of_encrypt H x = Inr x)"
proof -
  have ok: "engine_ok H"
    using assms(1) by (rule init_engine_ok)
  have mod: "decrypt_of_encrypt H x = Inr (map (\<lambda>v. v mod int (modulus H)) x)"
    using decrypt_encrypt_mod [OF ok assms(2) assms(3)] by (simp add: modulus_def)
  have "map (\<lambda>v. v mod int (modulus H)) x = x" if "\<forall>v\<in>set x. 0 \<le> v \<and> v < int (modulus H)"
    using that by (intro map_idI) simp
  with mod show ?thesis by simp
qed

theorem decrypt_encrypt_roundtrip_witness:
  "decrypt_of_encrypt
     \<lparr>encryption_matrix = [[1, 2], [0, 1]], decryption_matrix = [[1, 1], [0, 1]], modulus_attr = 3\<rparr>
     [0, 0, 0, 1, 1, 1, 2, 2] = Inr [0, 0, 0, 1, 1, 1, 2, 2]"
proof -
  let ?H = "\<lparr>encryption_matrix = [[1, 2], [0, 1]], decryption_matrix = [[1, 1], [0, 1]], modulus_attr = 3\<rparr>"
  have b: "block_size ?H = 2"
    by (simp add: block_size_def)
  have l: "length [0, 0, 0, 1, 1, 1, 2, 2 :: int] = 8"
    by simp
  have n: "0 < block_size ?H"
    unfolding b by simp
  have d: "block_size ?H dvd length [0, 0, 0, 1, 1, 1, 2, 2 :: int]"
    unfolding b l by simp
  show ?thesis
    using decrypt_encrypt_roundtrip [OF init_example n d] by (simp add: modulus_def)
qed

subsection \<open>Padding\<close>

text \<open>
  Claim C2 says that a call of \<^verbatim>\<open>encrypt\<close> or \<^verbatim>\<open>decrypt\<close> on a sequence whose
  length is not a multiple of the block size succeeds when a single padding value is
  supplied, and fails with \<open>PaddingRequired\<close> when none is. What the code does: for every
  engine of block size \<open>n \<ge> 1\<close> and every such sequence the call fails with
  \<open>RuntimeError PaddingNeeded\<close>, whatever \<^verbatim>\<open>padding_char\<close> the caller gave, since
  both methods pass the literal \<^verbatim>\<open>""\<close> on.
\<close>

theorem padding_argument_ignored:
  assumes "0 < block_size H" and "\<not> block_size H dvd length num_list"
  shows "encrypt H num_list padding_char = Inl (RuntimeError PaddingNeeded) \<and>
         decrypt H num_list padding_char = Inl (RuntimeError PaddingNeeded)"
  using assms by (simp add: encrypt_def decrypt_def apply_Hill_matrix_no_padding)

theorem padding_argument_ignored_witness:
  "encrypt \<lparr>encryption_matrix = [[1, 2], [0, 1]], decryption_matrix = [[1, 1], [0, 1]], modulus_attr = 3\<rparr>
     [0, 0, 1] [0] = Inl (RuntimeError PaddingNeeded) \<and>
   decrypt \<lparr>encryption_matrix = [[1, 2], [0, 1]], decryption_matrix = [[1, 1], [0, 1]], modulus_attr = 3\<rparr>
     [0, 0, 1] [0] = Inl (RuntimeError PaddingNeeded)"
proof -
  let ?H = "\<lparr>encryption_matrix = [[1, 2], [0, 1]], decryption_matrix = [[1, 1], [0, 1]], modulus_attr = 3\<rparr>"
  have b: "block_size ?H = 2"
    by (simp add: block_size_def)
  have l: "length [0, 0, 1 :: int] = 3"
    by simp
  have n: "0 < block_size ?H"
    unfolding b by simp
  have d: "\<not> block_size ?H dvd length [0, 0, 1 :: int]"
    unfolding b l by simp
  show ?thesis
    using n d by (rule padding_argument_ignored)
qed

subsection \<open>The two keys\<close>

text \<open>
  The engine on objects agrees with \<open>HillCipher_init\<close>, and for either value of
  \<^verbatim>\<open>pass_decryption_key\<close> the product of the two keys is the identity matrix modulo
  \<open>N\<close> when the constructor returns. A copy returned by an accessor is independent of
  the engine. The matrix the constructor was given is not: with no modulus argument it is
  one of the two stored keys.
\<close>

lemma characteristic_pos_ring:
  "characteristic R = N \<Longrightarrow> 0 < N \<Longrightarrow> R = IntegerModRing N"
  by (cases R) auto

lemma choose_modulus_None_ring:
  assumes "choose_modulus M None = Inr (N, me)"
  shows "base_ring M = IntegerModRing N"
proof -
  from assms have "characteristic (base_ring M) = N" "0 < N"
    by (auto simp: choose_modulus_def Let_def split: if_splits)
  then show ?thesis by (rule characteristic_pos_ring)
qed

lemma deref_append_old: "a < length s \<Longrightarrow> deref (s @ t) a = deref s a"
  by (simp add: deref_def nth_append)

lemma deref_append_new: "deref (s @ [M]) (length s) = M"
  by (simp add: deref_def)

lemma deref_valid: "a < length s \<Longrightarrow> deref s a = s ! a"
  by (simp add: deref_def)

text \<open>What a successful construction leaves in the store.\<close>

lemma new_result:
  assumes new: "HillCipher_new s arg1 arg2 pass_decryption_key = Inr (H, s2)"
    and valid: "arg1 < length s"
  shows "\<exists>N me ie m i.
      choose_modulus (s ! arg1) arg2 = Inr (N, me) \<and> matrix_inverse N me = Some ie \<and>
      modulus_value H = N \<and>
      (if pass_decryption_key = False
       then encryption_matrix_ref H = m \<and> decryption_matrix_ref H = i
       else encryption_matrix_ref H = i \<and> decryption_matrix_ref H = m) \<and>
      m < length s2 \<and> i < length s2 \<and> m \<noteq> i \<and>
      base_ring (s2 ! m) = IntegerModRing N \<and> reduce N (entries (s2 ! m)) = me \<and>
      s2 ! i = \<lparr>base_ring = IntegerModRing N, entries = ie\<rparr> \<and>
      (arg2 = None \<longrightarrow> m = arg1)"
proof -
  let ?M = "s ! arg1"
  have d: "deref s arg1 = ?M"
    using valid by (rule deref_valid)
  from new obtain N me where cm: "choose_modulus ?M arg2 = Inr (N, me)"
    by (auto simp: HillCipher_new_def d split: sum.splits)
  from new cm obtain ie where inv: "matrix_inverse N me = Some ie"
    by (auto simp: HillCipher_new_def d Let_def split: option.splits prod.splits)
  have me: "me = reduce N (entries ?M)"
    using cm by (rule choose_modulus_Inr)
  show ?thesis
  proof (cases "arg2 = None \<or> base_ring ?M = IntegerModRing N")
    case True
    then have ring: "base_ring ?M = IntegerModRing N"
      using cm choose_modulus_None_ring by blast
    from new cm inv True
    have H: "H = (if pass_decryption_key = False
                  then \<lparr>encryption_matrix_ref = arg1, decryption_matrix_ref = length s, modulus_value = N\<rparr>
                  else \<lparr>encryption_matrix_ref = length s, decryption_matrix_ref = arg1, modulus_value = N\<rparr>)"
      and s2: "s2 = s @ [\<lparr>base_ring = IntegerModRing N, entries = ie\<rparr>]"
      by (auto simp: HillCipher_new_def d alloc_def Let_def split: if_splits)
    show ?thesis
      apply (rule exI [of _ N], rule exI [of _ me], rule exI [of _ ie],
             rule exI [of _ arg1], rule exI [of _ "length s"])
      using cm inv H s2 valid ring me by (auto simp: nth_append)
  next
    case False
    from new cm inv False
    have H: "H = (if pass_decryption_key = False
                  then \<lparr>encryption_matrix_ref = length s, decryption_matrix_ref = Suc (length s), modulus_value = N\<rparr>
                  else \<lparr>encryption_matrix_ref = Suc (length s), decryption_matrix_ref = length s, modulus_value = N\<rparr>)"
      and s2: "s2 = s @ [\<lparr>base_ring = IntegerModRing N, entries = me\<rparr>,
                         \<lparr>base_ring = IntegerModRing N, entries = ie\<rparr>]"
      by (auto simp: HillCipher_new_def d alloc_def Let_def split: if_splits)
    have rr: "reduce N me = me"
      by (simp add: me reduce_reduce)
    show ?thesis
      apply (rule exI [of _ N], rule exI [of _ me], rule exI [of _ ie],
             rule exI [of _ "length s"], rule exI [of _ "Suc (length s)"])
      using cm inv H s2 False rr by (auto simp: nth_append)
  qed
qed

lemma key_product_eq:
  assumes "encryption_matrix_ref H < length s" "decryption_matrix_ref H < length s"
  shows "key_product s H =
     mat_mul_mod (characteristic (base_ring (s ! encryption_matrix_ref H)))
       (reduce (characteristic (base_ring (s ! encryption_matrix_ref H)))
          (entries (s ! encryption_matrix_ref H)))
       (reduce (characteristic (base_ring (s ! encryption_matrix_ref H)))
          (entries (s ! decryption_matrix_ref H)))"
  using assms
  by (simp add: key_product_def encryption_key_obj_def decryption_key_obj_def deepcopy_def
        alloc_def matrix_mul_def deref_def nth_append Let_def)

lemma new_matches_init:
  assumes new: "HillCipher_new s arg1 arg2 pass_decryption_key = Inr (H, s2)"
    and valid: "arg1 < length s"
  shows "HillCipher_init (s ! arg1) arg2 pass_decryption_key =
     Inr \<lparr>encryption_matrix = reduce (modulus_value H) (entries (s2 ! encryption_matrix_ref H)),
          decryption_matrix = reduce (modulus_value H) (entries (s2 ! decryption_matrix_ref H)),
          modulus_attr = modulus_value H\<rparr>"
proof -
  from new_result [OF new valid] obtain N me ie m i where
    cm: "choose_modulus (s ! arg1) arg2 = Inr (N, me)" and inv: "matrix_inverse N me = Some ie"
    and N: "modulus_value H = N"
    and refs: "if pass_decryption_key = False
       then encryption_matrix_ref H = m \<and> decryption_matrix_ref H = i
       else encryption_matrix_ref H = i \<and> decryption_matrix_ref H = m"
    and m: "reduce N (entries (s2 ! m)) = me"
    and i: "s2 ! i = \<lparr>base_ring = IntegerModRing N, entries = ie\<rparr>"
    by blast
  from matrix_inverse_Some [OF inv] have "ie \<in> set (all_matrices N (length me))"
    by simp
  then have rie: "reduce N ie = ie"
    using all_matrices_elem by blast
  show ?thesis
    using cm inv N refs m i rie by (auto simp: HillCipher_init_def split: if_splits)
qed

lemma new_establishes_invariant:
  assumes new: "HillCipher_new s arg1 arg2 pass_decryption_key = Inr (H, s2)"
    and valid: "arg1 < length s"
  shows "key_product s2 H = identity_matrix (length (entries (s2 ! encryption_matrix_ref H)))"
proof -
  from new_result [OF new valid] obtain N me ie m i where
    inv: "matrix_inverse N me = Some ie"
    and refs: "if pass_decryption_key = False
       then encryption_matrix_ref H = m \<and> decryption_matrix_ref H = i
       else encryption_matrix_ref H = i \<and> decryption_matrix_ref H = m"
    and lm: "m < length s2" and li: "i < length s2"
    and ring: "base_ring (s2 ! m) = IntegerModRing N"
    and m: "reduce N (entries (s2 ! m)) = me"
    and i: "s2 ! i = \<lparr>base_ring = IntegerModRing N, entries = ie\<rparr>"
    by blast
  from matrix_inverse_Some [OF inv]
  have ie: "ie \<in> set (all_matrices N (length me))"
    and i1: "mat_mul_mod N me ie = identity_matrix (length me)"
    and i2: "mat_mul_mod N ie me = identity_matrix (length me)"
    by (simp_all add: is_inverse_mod_def)
  from all_matrices_elem [OF ie] have lie: "length ie = length me" and rie: "reduce N ie = ie"
    by simp_all
  have lme: "length (entries (s2 ! m)) = length me"
    using m length_reduce [of N "entries (s2 ! m)"] by simp
  show ?thesis
  proof (cases "pass_decryption_key = False")
    case True
    with refs have e: "encryption_matrix_ref H = m" and d: "decryption_matrix_ref H = i"
      by simp_all
    show ?thesis
      using key_product_eq [of H s2] lm li
      by (simp add: e d ring m i rie i1 lme)
  next
    case False
    with refs have e: "encryption_matrix_ref H = i" and d: "decryption_matrix_ref H = m"
      by simp_all
    show ?thesis
      using key_product_eq [of H s2] lm li
      by (simp add: e d m i rie i2 lie)
  qed
qed

lemma new_stores_argument:
  assumes new: "HillCipher_new s arg1 None pass_decryption_key = Inr (H, s2)"
    and valid: "arg1 < length s"
  shows "(if pass_decryption_key = False then encryption_matrix_ref H else decryption_matrix_ref H)
         = arg1"
  using new_result [OF new valid] by (auto split: if_splits)

lemma returned_copy_is_independent:
  assumes e: "encryption_matrix_ref H < length s" and d: "decryption_matrix_ref H < length s"
    and copy: "encryption_key_obj s H = (c, s1)"
    and wr: "matrix_setitem s1 c i j v = Inr s3"
  shows "key_product s3 H = key_product s H"
proof -
  from copy have c: "c = length s" and s1: "s1 = s @ [deref s (encryption_matrix_ref H)]"
    by (simp_all add: encryption_key_obj_def deepcopy_def alloc_def)
  from wr obtain M where s3: "s3 = s1[c := M]"
    by (auto simp: matrix_setitem_def Let_def split: if_splits)
  have same: "s3 ! a = s ! a" if "a < length s" for a
    using that by (simp add: s3 s1 c nth_append)
  have len: "length s3 = Suc (length s)"
    by (simp add: s3 s1)
  have "key_product s3 H =
     mat_mul_mod (characteristic (base_ring (s3 ! encryption_matrix_ref H)))
       (reduce (characteristic (base_ring (s3 ! encryption_matrix_ref H)))
          (entries (s3 ! encryption_matrix_ref H)))
       (reduce (characteristic (base_ring (s3 ! encryption_matrix_ref H)))
          (entries (s3 ! decryption_matrix_ref H)))"
    using e d len by (intro key_product_eq) simp_all
  also have "\<dots> = key_product s H"
    using e d by (simp add: same key_product_eq)
  finally show ?thesis .
qed

text \<open>
  Claim C5 says that \<^verbatim>\<open>encryption_key() * decryption_key()\<close> is the identity matrix
  modulo \<open>N\<close> for every constructed engine and at all times after construction. What the
  code does for \<^verbatim>\<open>A3 = Matrix(IntegerModRing(3), 2, 2, [1, 2, 3, 4])\<close> (stored by Sage
  as \<open>[[1,2],[0,1]]\<close>) and \<^verbatim>\<open>H3 = HillCipher(A3)\<close>: the engine keeps \<^verbatim>\<open>A3\<close> itself
  as its encryption key, the product of the keys is the identity when the constructor
  returns, and after the caller's \<^verbatim>\<open>A3[0,0] = 0\<close> the product is \<open>[[0,2],[0,1]]\<close>.
\<close>

theorem stored_key_is_the_callers_matrix:
  "HillCipher_new [\<lparr>base_ring = IntegerModRing 3, entries = [[1, 2], [0, 1]]\<rparr>] 0 None False =
     Inr (\<lparr>encryption_matrix_ref = 0, decryption_matrix_ref = 1, modulus_value = 3\<rparr>,
          [\<lparr>base_ring = IntegerModRing 3, entries = [[1, 2], [0, 1]]\<rparr>,
           \<lparr>base_ring = IntegerModRing 3, entries = [[1, 1], [0, 1]]\<rparr>]) \<and>
   key_product
     [\<lparr>base_ring = IntegerModRing 3, entries = [[1, 2], [0, 1]]\<rparr>,
      \<lparr>base_ring = IntegerModRing 3, entries = [[1, 1], [0, 1]]\<rparr>]
     \<lparr>encryption_matrix_ref = 0, decryption_matrix_ref = 1, modulus_value = 3\<rparr>
     = identity_matrix 2 \<and>
   matrix_setitem
     [\<lparr>base_ring = IntegerModRing 3, entries = [[1, 2], [0, 1]]\<rparr>,
      \<lparr>base_ring = IntegerModRing 3, entries = [[1, 1], [0, 1]]\<rparr>] 0 0 0 0 =
     Inr [\<lparr>base_ring = IntegerModRing 3, entries = [[0, 2], [0, 1]]\<rparr>,
          \<lparr>base_ring = IntegerModRing 3, entries = [[1, 1], [0, 1]]\<rparr>] \<and>
   key_product
     [\<lparr>base_ring = IntegerModRing 3, entries = [[0, 2], [0, 1]]\<rparr>,
      \<lparr>base_ring = IntegerModRing 3, entries = [[1, 1], [0, 1]]\<rparr>]
     \<lparr>encryption_matrix_ref = 0, decryption_matrix_ref = 1, modulus_value = 3\<rparr>
     = [[0, 2], [0, 1]] \<and>
   [[0, 2], [0, 1]] \<noteq> identity_matrix 2"
proof (intro conjI)
  show "HillCipher_new [\<lparr>base_ring = IntegerModRing 3, entries = [[1, 2], [0, 1]]\<rparr>] 0 None False =
     Inr (\<lparr>encryption_matrix_ref = 0, decryption_matrix_ref = 1, modulus_value = 3\<rparr>,
          [\<lparr>base_ring = IntegerModRing 3, entries = [[1, 2], [0, 1]]\<rparr>,
           \<lparr>base_ring = IntegerModRing 3, entries = [[1, 1], [0, 1]]\<rparr>])"
    by code_simp
  show "key_product
     [\<lparr>base_ring = IntegerModRing 3, entries = [[1, 2], [0, 1]]\<rparr>,
      \<lparr>base_ring = IntegerModRing 3, entries = [[1, 1], [0, 1]]\<rparr>]
     \<lparr>encryption_matrix_ref = 0, decryption_matrix_ref = 1, modulus_value = 3\<rparr>
     = identity_matrix 2"
    by code_simp
  show "matrix_setitem
     [\<lparr>base_ring = IntegerModRing 3, entries = [[1, 2], [0, 1]]\<rparr>,
      \<lparr>base_ring = IntegerModRing 3, entries = [[1, 1], [0, 1]]\<rparr>] 0 0 0 0 =
     Inr [\<lparr>base_ring = IntegerModRing 3, entries = [[0, 2], [0, 1]]\<rparr>,
          \<lparr>base_ring = IntegerModRing 3, entries = [[1, 1], [0, 1]]\<rparr>]"
    by code_simp
  show "key_product
     [\<lparr>base_ring = IntegerModRing 3, entries = [[0, 2], [0, 1]]\<rparr>,
      \<lparr>base_ring = IntegerModRing 3, entries = [[1, 1], [0, 1]]\<rparr>]
     \<lparr>encryption_matrix_ref = 0, decryption_matrix_ref = 1, modulus_value = 3\<rparr>
     = [[0, 2], [0, 1]]"
    by code_simp
  show "[[0, 2], [0, 1]] \<noteq> identity_matrix 2"
    by code_simp
qed

subsection \<open>Matrices without an inverse\<close>

text \<open>
  Claim C7 says that constructing an engine from a matrix whose determinant is not a unit
  modulo \<open>N\<close>, the all-zero matrix for one, fails with \<open>NotInvertible\<close>. What the code
  does: no call of the constructor ever ends in \<open>RuntimeError CannotFindInverse\<close>; for
  the all-zero \<open>n \<times> n\<close> matrix with \<open>n \<ge> 1\<close> and any modulus the construction does
  fail, with the \<open>UnboundLocalError\<close> of the handler's own \<^verbatim>\<open>raise\<close> statement.
\<close>

theorem singular_matrix_error:
  "HillCipher_init arg1 arg2 pass_decryption_key \<noteq> Inl (RuntimeError CannotFindInverse) \<and>
   (0 < n \<longrightarrow>
      HillCipher_init \<lparr>base_ring = ZZ, entries = replicate n (replicate n 0)\<rparr> (Some N)
        pass_decryption_key = Inl UnboundLocalError)"
proof
  show "HillCipher_init arg1 arg2 pass_decryption_key \<noteq> Inl (RuntimeError CannotFindInverse)"
    by (auto simp: HillCipher_init_def choose_modulus_def base_extend_def Let_def
             split: sum.splits option.splits if_splits ring.splits prod.splits)
  show "0 < n \<longrightarrow>
      HillCipher_init \<lparr>base_ring = ZZ, entries = replicate n (replicate n 0)\<rparr> (Some N)
        pass_decryption_key = Inl UnboundLocalError"
    by (simp add: HillCipher_init_def choose_modulus_def base_extend_def reduce_zero
          zero_matrix_no_inverse)
qed

theorem singular_matrix_error_witness:
  "HillCipher_init \<lparr>base_ring = ZZ, entries = [[0, 0], [0, 0]]\<rparr> (Some 2) False
     = Inl UnboundLocalError"
  using singular_matrix_error [of _ _ False 2 2]
  by (simp add: numeral_2_eq_2)

subsection \<open>The modulus of a matrix given alone\<close>

text \<open>
  Claim C8: constructing an engine from a matrix alone fails with \<open>NoModulus\<close> when the
  characteristic of the matrix's base ring is 0; when the characteristic \<open>N\<close> is
  positive the construction does not fail with \<open>NoModulus\<close>, every engine it returns
  has modulus \<open>N\<close>, and it returns one whenever the matrix has an inverse modulo \<open>N\<close>.
\<close>

theorem modulus_from_base_ring:
  "(characteristic (base_ring arg1) = 0 \<longrightarrow>
      HillCipher_init arg1 None pass_decryption_key = Inl (TypeError NoModulusSpecified)) \<and>
   (0 < characteristic (base_ring arg1) \<longrightarrow>
      HillCipher_init arg1 None pass_decryption_key \<noteq> Inl (TypeError NoModulusSpecified) \<and>
      (\<forall>H. HillCipher_init arg1 None pass_decryption_key = Inr H \<longrightarrow>
           modulus H = characteristic (base_ring arg1)) \<and>
      (\<forall>B. matrix_inverse (characteristic (base_ring arg1))
             (reduce (characteristic (base_ring arg1)) (entries arg1)) = Some B \<longrightarrow>
           (\<exists>H. HillCipher_init arg1 None pass_decryption_key = Inr H)))"
  by (auto simp: HillCipher_init_def choose_modulus_def Let_def modulus_def
           split: option.splits)

theorem modulus_from_base_ring_witness:
  "HillCipher_init \<lparr>base_ring = ZZ, entries = [[1, 2], [3, 4]]\<rparr> None False
     = Inl (TypeError NoModulusSpecified) \<and>
   modulus \<lparr>encryption_matrix = [[1, 2], [0, 1]], decryption_matrix = [[1, 1], [0, 1]], modulus_attr = 3\<rparr>
     = 3"
  using modulus_from_base_ring [of "\<lparr>base_ring = ZZ, entries = [[1, 2], [3, 4]]\<rparr>" False]
    modulus_from_base_ring [of "\<lparr>base_ring = IntegerModRing 3, entries = [[1, 2], [3, 4]]\<rparr>" False]
    init_example_mod3
  by simp

subsection \<open>The returned sequences\<close>

text \<open>
  Claim C9: for every successful call of \<^verbatim>\<open>encrypt\<close> or \<^verbatim>\<open>decrypt\<close> on a
  constructed engine, every integer of the returned sequence lies in \<open>[0, N)\<close>; and
  (the block size being positive) the empty sequence yields the empty sequence with no
  error.
\<close>

theorem outputs_canonical:
  assumes "HillCipher_init arg1 arg2 pass_decryption_key = Inr H"
  shows "(encrypt H num_list padding_char = Inr ys \<longrightarrow> (\<forall>y\<in>set ys. 0 \<le> y \<and> y < int (modulus H))) \<and>
         (decrypt H num_list padding_char = Inr ys \<longrightarrow> (\<forall>y\<in>set ys. 0 \<le> y \<and> y < int (modulus H))) \<and>
         (0 < block_size H \<longrightarrow>
            encrypt H [] padding_char = Inr [] \<and> decrypt H [] padding_char = Inr [])"
proof -
  have ok: "engine_ok H"
    using assms by (rule init_engine_ok)
  have "\<forall>y\<in>set ys. 0 \<le> y \<and> y < int (modulus H)" if "encrypt H num_list padding_char = Inr ys"
    using encrypt_range [OF ok that] by (simp add: modulus_def)
  moreover have "\<forall>y\<in>set ys. 0 \<le> y \<and> y < int (modulus H)" if "decrypt H num_list padding_char = Inr ys"
    using decrypt_range [OF ok that] by (simp add: modulus_def)
  moreover have "encrypt H [] padding_char = Inr [] \<and> decrypt H [] padding_char = Inr []"
    if "0 < block_size H"
    using that by (simp add: encrypt_def decrypt_def apply_Hill_matrix_no_padding)
  ultimately show ?thesis by blast
qed

theorem outputs_canonical_witness:
  "encrypt \<lparr>encryption_matrix = [[1, 2], [0, 1]], decryption_matrix = [[1, 1], [0, 1]], modulus_attr = 3\<rparr>
     [] [] = Inr [] \<and>
   decrypt \<lparr>encryption_matrix = [[1, 2], [0, 1]], decryption_matrix = [[1, 1], [0, 1]], modulus_attr = 3\<rparr>
     [] [] = Inr []"
  using outputs_canonical [OF init_example, of "[]" "[]" "[]"]
  by (simp add: block_size_def)

text \<open>
  Claim C10: for every constructed engine with block size \<open>n \<ge> 1\<close> and every input
  sequence whose length is a multiple of \<open>n\<close>, \<^verbatim>\<open>encrypt\<close> and \<^verbatim>\<open>decrypt\<close> each
  succeed and return a sequence of the same length as the input.
\<close>

theorem full_blocks_keep_length:
  assumes "HillCipher_init arg1 arg2 pass_decryption_key = Inr H"
    and "0 < block_size H" and "block_size H dvd length num_list"
  shows "(\<exists>ys. encrypt H num_list padding_char = Inr ys \<and> length ys = length num_list) \<and>
         (\<exists>ys. decrypt H num_list padding_char = Inr ys \<and> length ys = length num_list)"
proof -
  have ok: "engine_ok H"
    using assms(1) by (rule init_engine_ok)
  show ?thesis
    using encrypt_length [OF ok assms(2) assms(3)] decrypt_length [OF ok assms(2) assms(3)]
    by simp
qed

theorem full_blocks_keep_length_witness:
  "(\<exists>ys. encrypt \<lparr>encryption_matrix = [[1, 2], [0, 1]], decryption_matrix = [[1, 1], [0, 1]], modulus_attr = 3\<rparr>
            [0, 0, 0, 1, 1, 1, 2, 2] [] = Inr ys \<and> length ys = 8) \<and>
   (\<exists>ys. decrypt \<lparr>encryption_matrix = [[1, 2], [0, 1]], decryption_matrix = [[1, 1], [0, 1]], modulus_attr = 3\<rparr>
            [0, 0, 2, 1, 0, 1, 0, 2] [] = Inr ys \<and> length ys = 8)"
proof -
  let ?H = "\<lparr>encryption_matrix = [[1, 2], [0, 1]], decryption_matrix = [[1, 1], [0, 1]], modulus_attr = 3\<rparr>"
  have b: "block_size ?H = 2"
    by (simp add: block_size_def)
  have l: "length [0, 0, 0, 1, 1, 1, 2, 2 :: int] = 8" "length [0, 0, 2, 1, 0, 1, 0, 2 :: int] = 8"
    by simp_all
  have n: "0 < block_size ?H"
    unfolding b by simp
  have d: "block_size ?H dvd length [0, 0, 0, 1, 1, 1, 2, 2 :: int]"
    "block_size ?H dvd length [0, 0, 2, 1, 0, 1, 0, 2 :: int]"
    unfolding b l by simp_all
  show ?thesis
    using full_blocks_keep_length [OF init_example n d(1), of "[]"]
      full_blocks_keep_length [OF init_example n d(2), of "[]"]
    unfolding l by blast
qed

end
